theory Spec2Isabelle
  imports Complex_Main "HOL-Library.Word" "HOL-Library.AList"
begin

chapter \<open>The gesture pipeline of \<^verbatim>\<open>new_gesture_control.py\<close>\<close>

text \<open>
  A shallow embedding of the methods of \<^verbatim>\<open>GestureController\<close> that ingest the
  camera stream, classify a hand pose, gate the gesture by the cooldown, talk to the
  remote display and keep the gesture-to-action mapping. Python exceptions are values
  of \<open>py_error\<close>; a method that can raise returns \<open>py_error + 'a\<close>.
\<close>

section \<open>Definitions\<close>

subsection \<open>Exceptions\<close>

datatype py_error = IndexError | TypeError | CvError | OSError | JSONDecodeError

definition sum_bind :: "'e + 'a \<Rightarrow> ('a \<Rightarrow> 'e + 'b) \<Rightarrow> 'e + 'b" where
  "sum_bind m f = (case m of Inl e \<Rightarrow> Inl e | Inr v \<Rightarrow> f v)"

text \<open>\<^verbatim>\<open>xs[i]\<close> for a constant index \<open>i \<ge> 0\<close>: IndexError out of range.\<close>

definition getitem :: "'a list \<Rightarrow> nat \<Rightarrow> py_error + 'a" where
  "getitem xs i = (if i < length xs then Inr (xs ! i) else Inl IndexError)"

subsection \<open>Python values and the store\<close>

text \<open>
  The values \<^verbatim>\<open>json.load\<close> can return. A dictionary is an association list in
  insertion order; its keys are strings, as JSON object keys are.
\<close>

datatype pyval =
  PNone | PBool bool | PInt int | PFloat real | PStr string | PList "pyval list"
  | PDict "(string \<times> pyval) list"

text \<open>
  Dictionaries are mutable and shared by reference, so they live in a store. The
  module-level dictionary \<^verbatim>\<open>DEFAULT_GESTURE_ACTIONS\<close> has a reference of its own;
  every other object has a number, given in allocation order.
\<close>

datatype ref = DefaultsRef | Obj nat

record store =
  default_gesture_actions :: "(string \<times> pyval) list"
  objects :: "pyval list"

definition DEFAULT_GESTURE_ACTIONS :: "(string \<times> pyval) list" where
  "DEFAULT_GESTURE_ACTIONS =
     [(''thumbs_up'', PStr ''translate''), (''peace'', PStr ''repeat''),
      (''fist'', PStr ''stop''), (''open_palm'', PStr ''cycle_language''),
      (''pointing'', PStr ''send_msg''), (''ok_sign'', PStr ''none''),
      (''pinch'', PStr ''none'')]"

definition AVAILABLE_ACTIONS :: "string list" where
  "AVAILABLE_ACTIONS =
     [''translate'', ''repeat'', ''stop'', ''cycle_language'', ''send_msg'',
      ''show_text_on_esp32'', ''speak_custom_text'', ''change_source_language'',
      ''reset_app'', ''none'']"

definition init_store :: store where
  "init_store = \<lparr>default_gesture_actions = DEFAULT_GESTURE_ACTIONS, objects = []\<rparr>"

definition deref :: "store \<Rightarrow> ref \<Rightarrow> pyval" where
  "deref st r =
     (case r of DefaultsRef \<Rightarrow> PDict (default_gesture_actions st) | Obj a \<Rightarrow> objects st ! a)"

definition alloc :: "store \<Rightarrow> pyval \<Rightarrow> store \<times> ref" where
  "alloc st v = (st\<lparr>objects := objects st @ [v]\<rparr>, Obj (length (objects st)))"

subsection \<open>The controller object\<close>

text \<open>
  The fields of \<^verbatim>\<open>GestureController\<close> that the modelled methods read or write,
  with the values \<^verbatim>\<open>__init__\<close> gives them (lines 88-113). \<open>gesture_actions\<close> is a
  reference into the store of Python objects. \<open>display_method_var\<close> is the
  Tk variable behind the transport selector; it is \<open>None\<close> while the attribute does not
  exist (\<^verbatim>\<open>hasattr\<close> is false).
\<close>

record controller =
  esp32_ip :: string
  esp32_stream_port :: string
  esp32_ws_port :: string
  display_method :: string
  display_method_var :: "string option"
  display_available :: bool
  gesture_actions :: ref
  current_gesture :: string
  last_gesture_time :: real
  gesture_cooldown :: real
  is_running :: bool

definition init_controller :: "ref \<Rightarrow> controller" where
  "init_controller cfg =
     \<lparr>esp32_ip = ''192.168.1.42'', esp32_stream_port = ''80'', esp32_ws_port = ''81'',
      display_method = ''WebSocket'', display_method_var = None, display_available = True,
      gesture_actions = cfg, current_gesture = ''None'', last_gesture_time = 0,
      gesture_cooldown = 1, is_running = False\<rparr>"

subsection \<open>Demuxing the byte stream (process\_esp32\_stream, lines 637-642)\<close>

type_synonym byte = "8 word"

text \<open>\<^verbatim>\<open>data.find(sub)\<close>: the lowest index where \<open>sub\<close> occurs; \<open>None\<close> stands for \<open>-1\<close>.\<close>

fun bytes_find :: "'a list \<Rightarrow> 'a list \<Rightarrow> nat option" where
  "bytes_find [] sub = (if sub = [] then Some 0 else None)"
| "bytes_find (b # bs) sub =
     (if take (length sub) (b # bs) = sub then Some 0
      else map_option Suc (bytes_find bs sub))"

definition SOI :: "byte list" where
  "SOI = [0xFF, 0xD8]"

definition EOI :: "byte list" where
  "EOI = [0xFF, 0xD9]"

text \<open>
  Lines 638-642 on the buffer after the chunk was appended: when both markers are
  found, \<^verbatim>\<open>jpg = bytes_data[a:b+2]\<close> and \<^verbatim>\<open>bytes_data = bytes_data[b+2:]\<close>.
  The result is the pair \<open>(jpg, rest)\<close>, or \<open>None\<close> when a marker is missing.
\<close>

definition extract_jpg :: "byte list \<Rightarrow> (byte list \<times> byte list) option" where
  "extract_jpg bytes_data =
     (case bytes_find bytes_data SOI of
        None \<Rightarrow> None
      | Some a \<Rightarrow>
          (case bytes_find bytes_data EOI of
             None \<Rightarrow> None
           | Some b \<Rightarrow> Some (drop a (take (b + 2) bytes_data), drop (b + 2) bytes_data)))"

subsection \<open>Classifying a pose (detect\_gesture, lines 675-699)\<close>

record landmark =
  lm_x :: real
  lm_y :: real

definition thumb_index_dist :: "landmark \<Rightarrow> landmark \<Rightarrow> real" where
  "thumb_index_dist thumb_tip index_tip =
     sqrt ((lm_x thumb_tip - lm_x index_tip)\<^sup>2 + (lm_y thumb_tip - lm_y index_tip)\<^sup>2)"

text \<open>The chain of \<^verbatim>\<open>if ...: return\<close> statements of lines 684-699, in source order.\<close>

definition decide_gesture ::
  "bool \<Rightarrow> bool \<Rightarrow> bool \<Rightarrow> bool \<Rightarrow> bool \<Rightarrow> real \<Rightarrow> string" where
  "decide_gesture thumb_up index_up middle_up ring_up pinky_up tid =
     (let fingers_up = (of_bool index_up + of_bool middle_up + of_bool ring_up
                        + of_bool pinky_up :: nat)
      in if thumb_up \<and> \<not> index_up \<and> \<not> middle_up \<and> \<not> ring_up \<and> \<not> pinky_up then ''thumbs_up''
         else if index_up \<and> middle_up \<and> \<not> ring_up \<and> \<not> pinky_up then ''peace''
         else if fingers_up = 0 \<and> \<not> thumb_up then ''fist''
         else if fingers_up = 4 \<and> thumb_up then ''open_palm''
         else if index_up \<and> \<not> middle_up \<and> \<not> ring_up \<and> \<not> pinky_up then ''pointing''
         else if tid < 0.05 \<and> middle_up \<and> ring_up then ''ok_sign''
         else if tid < 0.08 \<and> \<not> middle_up \<and> \<not> ring_up then ''pinch''
         else ''None'')"

text \<open>
  Lines 676-683 read ten landmarks by index, in the order written here, before any
  decision is taken; each read raises IndexError on a short pose.
\<close>

definition detect_gesture :: "landmark list \<Rightarrow> py_error + string" where
  "detect_gesture landmarks =
     sum_bind (getitem landmarks 4) (\<lambda>thumb_tip.
     sum_bind (getitem landmarks 8) (\<lambda>index_tip.
     sum_bind (getitem landmarks 12) (\<lambda>middle_tip.
     sum_bind (getitem landmarks 16) (\<lambda>ring_tip.
     sum_bind (getitem landmarks 20) (\<lambda>pinky_tip.
     sum_bind (getitem landmarks 5) (\<lambda>index_base.
     sum_bind (getitem landmarks 9) (\<lambda>middle_base.
     sum_bind (getitem landmarks 13) (\<lambda>ring_base.
     sum_bind (getitem landmarks 17) (\<lambda>pinky_base.
     sum_bind (getitem landmarks 3) (\<lambda>thumb_ip.
       Inr (decide_gesture
              (lm_y thumb_tip < lm_y thumb_ip)
              (lm_y index_tip < lm_y index_base)
              (lm_y middle_tip < lm_y middle_base)
              (lm_y ring_tip < lm_y ring_base)
              (lm_y pinky_tip < lm_y pinky_base)
              (thumb_index_dist thumb_tip index_tip))))))))))))"

subsection \<open>The cooldown gate (process\_esp32\_stream, lines 653-657)\<close>

text \<open>
  \<^verbatim>\<open>if gesture != "None" and (now - self.last_gesture_time) > self.gesture_cooldown\<close>:
  record the time and the gesture and start a thread running
  \<^verbatim>\<open>execute_gesture_action(gesture)\<close>. The second component is the gesture the thread
  was started with, \<open>None\<close> when no thread was started.
\<close>

definition gesture_gate :: "controller \<Rightarrow> string \<Rightarrow> real \<Rightarrow> controller \<times> string option" where
  "gesture_gate self gesture now =
     (if gesture \<noteq> ''None'' \<and> now - last_gesture_time self > gesture_cooldown self
      then (self\<lparr>last_gesture_time := now, current_gesture := gesture\<rparr>, Some gesture)
      else (self, None))"

subsection \<open>One iteration and the loop (process\_esp32\_stream, lines 634-661)\<close>

text \<open>
  What one iteration receives from outside: the chunk read from the HTTP stream, the
  hand poses MediaPipe reports for the frame (\<open>[]\<close> when \<^verbatim>\<open>multi_hand_landmarks\<close> is
  \<open>None\<close>), and the value of \<^verbatim>\<open>time.time()\<close>.
\<close>

record tick =
  chunk :: "byte list"
  multi_hand_landmarks :: "landmark list list"
  clock :: real

text \<open>
  What one iteration does: the frame it decoded (\<open>None\<close> when no image was complete)
  and the action thread it started, with the time of the start.
\<close>

record 'f emitted =
  frame :: "'f option"
  started :: "(string \<times> real) option"

text \<open>
  Lines 637-659. \<open>imdecode\<close> stands for \<^verbatim>\<open>cv2.imdecode\<close> followed by
  \<^verbatim>\<open>cv2.resize\<close> and \<^verbatim>\<open>cv2.cvtColor\<close>: \<open>None\<close> when the bytes are no image, where
  the source raises (\<^verbatim>\<open>cv2.resize\<close> of \<open>None\<close>). Only the first hand is classified
  (\<^verbatim>\<open>break\<close> at line 652). The single-slot presentation queue is not modelled.
\<close>

definition loop_body ::
  "(byte list \<Rightarrow> 'f option) \<Rightarrow> controller \<Rightarrow> byte list \<Rightarrow> tick
     \<Rightarrow> py_error + (controller \<times> byte list \<times> 'f emitted)" where
  "loop_body imdecode self bytes_data t =
     (let bytes_data = bytes_data @ chunk t in
      case extract_jpg bytes_data of
        None \<Rightarrow> Inr (self, bytes_data, \<lparr>frame = None, started = None\<rparr>)
      | Some (jpg, bytes_data) \<Rightarrow>
          (case imdecode jpg of
             None \<Rightarrow> Inl CvError
           | Some small \<Rightarrow>
               sum_bind
                 (case multi_hand_landmarks t of
                    [] \<Rightarrow> Inr ''None''
                  | hand_landmarks # _ \<Rightarrow> detect_gesture hand_landmarks)
                 (\<lambda>gesture.
                    let (self, th) = gesture_gate self gesture (clock t)
                    in Inr (self, bytes_data,
                            \<lparr>frame = Some small,
                             started = map_option (\<lambda>g. (g, clock t)) th\<rparr>))))"

text \<open>
  The \<^verbatim>\<open>for chunk in stream.iter_content(...)\<close> loop inside \<^verbatim>\<open>try\<close>: it ends when
  the stream ends, when \<^verbatim>\<open>is_running\<close> is false at the top of an iteration, or when
  the body raises (the handler logs and the method returns). The result is the
  controller, the buffer, and what each completed iteration did. The buffer is a local
  variable of the method: after a raise the model gives it as it stood before the
  failing iteration, and nothing reads it.
\<close>

fun stream_loop ::
  "(byte list \<Rightarrow> 'f option) \<Rightarrow> controller \<Rightarrow> byte list \<Rightarrow> tick list
     \<Rightarrow> controller \<times> byte list \<times> 'f emitted list" where
  "stream_loop imdecode self bytes_data [] = (self, bytes_data, [])"
| "stream_loop imdecode self bytes_data (t # ts) =
     (if \<not> is_running self then (self, bytes_data, [])
      else case loop_body imdecode self bytes_data t of
             Inl e \<Rightarrow> (self, bytes_data, [])
           | Inr (self', bytes_data', out) \<Rightarrow>
               (case stream_loop imdecode self' bytes_data' ts of
                  (self'', bytes_data'', outs) \<Rightarrow> (self'', bytes_data'', out # outs)))"

definition process_esp32_stream ::
  "(byte list \<Rightarrow> 'f option) \<Rightarrow> controller \<Rightarrow> tick list
     \<Rightarrow> controller \<times> byte list \<times> 'f emitted list" where
  "process_esp32_stream imdecode self ts = stream_loop imdecode self [] ts"

text \<open>The times at which the iterations started an action thread, oldest first.\<close>

definition fired_times :: "'f emitted list \<Rightarrow> real list" where
  "fired_times outs = map snd (List.map_filter started outs)"

definition frames :: "'f emitted list \<Rightarrow> 'f list" where
  "frames outs = List.map_filter frame outs"

subsection \<open>Auxiliary notions and sample inputs for the cooldown\<close>

text \<open>
  \<open>spaced c l ts\<close>: the first time of \<open>ts\<close> is more than \<open>c\<close> after \<open>l\<close>, and each later
  one more than \<open>c\<close> after the one before.
\<close>

fun spaced :: "real \<Rightarrow> real \<Rightarrow> real list \<Rightarrow> bool" where
  "spaced c l [] = True"
| "spaced c l (t # ts) = (t - l > c \<and> spaced c t ts)"

text \<open>
  A pose with all 21 landmarks at one point (no finger up: a fist) and a controller
  whose stream is running.
\<close>

definition fist_pose :: "landmark list" where
  "fist_pose = replicate 21 \<lparr>lm_x = 0.5, lm_y = 0.5\<rparr>"

definition running_controller :: controller where
  "running_controller = (init_controller (Obj 0))\<lparr>is_running := True\<rparr>"


text \<open>
  Lines 648-652 on a tick: the gesture an iteration that decoded a frame hands to the
  cooldown test, \<open>None\<close> when MediaPipe reports no hand.
\<close>

definition classify_tick :: "tick \<Rightarrow> py_error + string" where
  "classify_tick t =
     (case multi_hand_landmarks t of
        [] \<Rightarrow> Inr ''None''
      | hand_landmarks # _ \<Rightarrow> detect_gesture hand_landmarks)"

text \<open>
  The time of the last action thread started in \<open>outs\<close>, and \<open>l\<close> when none was
  started.
\<close>

definition last_fired :: "real \<Rightarrow> 'f emitted list \<Rightarrow> real" where
  "last_fired l outs = last (l # fired_times outs)"

subsection \<open>The decision conditions of the classifier, as a table\<close>

text \<open>
  The labels whose condition (lines 684-698) a pose of at least 21 landmarks satisfies,
  in the order in which \<^verbatim>\<open>detect_gesture\<close> tests them.
\<close>

definition matching :: "landmark list \<Rightarrow> string list" where
  "matching landmarks =
     (let thumb_up = lm_y (landmarks ! 4) < lm_y (landmarks ! 3);
          index_up = lm_y (landmarks ! 8) < lm_y (landmarks ! 5);
          middle_up = lm_y (landmarks ! 12) < lm_y (landmarks ! 9);
          ring_up = lm_y (landmarks ! 16) < lm_y (landmarks ! 13);
          pinky_up = lm_y (landmarks ! 20) < lm_y (landmarks ! 17);
          fingers_up = length (filter id [index_up, middle_up, ring_up, pinky_up]);
          tid = thumb_index_dist (landmarks ! 4) (landmarks ! 8)
      in map fst (filter snd
           [(''thumbs_up'', thumb_up \<and> \<not> index_up \<and> \<not> middle_up \<and> \<not> ring_up \<and> \<not> pinky_up),
            (''peace'', index_up \<and> middle_up \<and> \<not> ring_up \<and> \<not> pinky_up),
            (''fist'', fingers_up = 0 \<and> \<not> thumb_up),
            (''open_palm'', fingers_up = 4 \<and> thumb_up),
            (''pointing'', index_up \<and> \<not> middle_up \<and> \<not> ring_up \<and> \<not> pinky_up),
            (''ok_sign'', tid < 0.05 \<and> middle_up \<and> ring_up),
            (''pinch'', tid < 0.08 \<and> \<not> middle_up \<and> \<not> ring_up)]))"

text \<open>
  Two sample poses. In the first the thumb tip is above the thumb joint, no finger is
  up, and thumb tip and index tip coincide: the conditions of \<open>thumbs_up\<close> and of
  \<open>pinch\<close> both hold. In the second index and middle finger are up, ring and pinky
  are not, and thumb tip and index tip coincide: the \<open>peace\<close> pattern within the
  \<open>ok_sign\<close> distance.
\<close>

definition thumb_pinch_pose :: "landmark list" where
  "thumb_pinch_pose = (replicate 21 \<lparr>lm_x = 0.5, lm_y = 0.5\<rparr>)[3 := \<lparr>lm_x = 0.5, lm_y = 0.6\<rparr>]"

definition peace_near_pose :: "landmark list" where
  "peace_near_pose =
     (replicate 21 \<lparr>lm_x = 0.5, lm_y = 0.5\<rparr>)
       [5 := \<lparr>lm_x = 0.5, lm_y = 0.6\<rparr>, 9 := \<lparr>lm_x = 0.5, lm_y = 0.6\<rparr>]"

subsection \<open>The display channel (send\_to\_esp32\_display, update\_esp32\_settings)\<close>

text \<open>
  How the device answers one send. \<^verbatim>\<open>requests.post\<close> raises or returns a response
  with a status code; on the WebSocket path \<^verbatim>\<open>create_connection\<close>, \<^verbatim>\<open>send\<close> or
  \<^verbatim>\<open>close\<close> raises, or all three return.
\<close>

datatype http_outcome = HttpRaises | HttpStatus int

datatype ws_outcome = WsConnectRaises | WsSendRaises | WsCloseRaises | WsDone

record device =
  http_reply :: http_outcome
  ws_reply :: ws_outcome

text \<open>The network calls a send makes, and the line it logs last.\<close>

datatype net_call = HttpPost string string | WsConnect string | WsSend string | WsClose

datatype send_log =
  NotAvailable | UpdatedViaHTTP | HttpErrorStatus int | HttpDisplayError | UpdatedViaWS
  | UnavailableWS

text \<open>
  Line 960: the transport is read from the Tk variable when the attribute exists,
  from \<^verbatim>\<open>self.display_method\<close> otherwise.
\<close>

definition selected_method :: "controller \<Rightarrow> string" where
  "selected_method self =
     (case display_method_var self of Some m \<Rightarrow> m | None \<Rightarrow> display_method self)"

definition display_url :: "controller \<Rightarrow> string" where
  "display_url self = ''http://'' @ esp32_ip self @ '':'' @ esp32_stream_port self @ ''/display''"

definition ws_url :: "controller \<Rightarrow> string" where
  "ws_url self = ''ws://'' @ esp32_ip self @ '':'' @ esp32_ws_port self"

text \<open>
  Lines 956-982. The method returns nothing; the model returns the controller, the
  network calls made, in order, and the last line logged.
\<close>

definition send_to_esp32_display ::
  "device \<Rightarrow> string \<Rightarrow> controller \<Rightarrow> controller \<times> net_call list \<times> send_log" where
  "send_to_esp32_display dev message self =
     (if \<not> display_available self then (self, [], NotAvailable)
      else if selected_method self = ''HTTP'' then
        (case http_reply dev of
           HttpStatus status_code \<Rightarrow>
             (if status_code = 200
              then (self, [HttpPost (display_url self) message], UpdatedViaHTTP)
              else (self, [HttpPost (display_url self) message], HttpErrorStatus status_code))
         | HttpRaises \<Rightarrow>
             (self\<lparr>display_available := False\<rparr>, [HttpPost (display_url self) message],
              HttpDisplayError))
      else
        (case ws_reply dev of
           WsConnectRaises \<Rightarrow>
             (self\<lparr>display_available := False\<rparr>, [WsConnect (ws_url self)], UnavailableWS)
         | WsSendRaises \<Rightarrow>
             (self\<lparr>display_available := False\<rparr>, [WsConnect (ws_url self), WsSend message],
              UnavailableWS)
         | WsCloseRaises \<Rightarrow>
             (self\<lparr>display_available := False\<rparr>,
              [WsConnect (ws_url self), WsSend message, WsClose], UnavailableWS)
         | WsDone \<Rightarrow>
             (self, [WsConnect (ws_url self), WsSend message, WsClose], UpdatedViaWS)))"

text \<open>
  Lines 984-991: the three entry fields are copied into the controller and the
  transport is read from the Tk variable. \<^verbatim>\<open>display_available\<close> is not assigned.
\<close>

definition update_esp32_settings :: "string \<Rightarrow> string \<Rightarrow> string \<Rightarrow> controller \<Rightarrow> controller" where
  "update_esp32_settings ip_entry stream_port_entry ws_port_entry self =
     (let self = self\<lparr>esp32_ip := ip_entry, esp32_stream_port := stream_port_entry,
                       esp32_ws_port := ws_port_entry\<rparr>
      in case display_method_var self of
           Some m \<Rightarrow> self\<lparr>display_method := m\<rparr>
         | None \<Rightarrow> self)"

text \<open>A session of the display channel: sends and settings updates, in order.\<close>

datatype display_op = Send device string | UpdateSettings string string string

fun display_run :: "controller \<Rightarrow> display_op list \<Rightarrow> controller \<times> net_call list" where
  "display_run self [] = (self, [])"
| "display_run self (Send dev message # ops) =
     (case send_to_esp32_display dev message self of
        (self', calls, _) \<Rightarrow>
          (case display_run self' ops of (self'', calls') \<Rightarrow> (self'', calls @ calls')))"
| "display_run self (UpdateSettings ip sp wp # ops) =
     display_run (update_esp32_settings ip sp wp self) ops"

text \<open>Sample devices and a controller whose transport selector says HTTP.\<close>

definition dead_device :: device where
  "dead_device = \<lparr>http_reply = HttpRaises, ws_reply = WsConnectRaises\<rparr>"

definition live_device :: device where
  "live_device = \<lparr>http_reply = HttpStatus 200, ws_reply = WsDone\<rparr>"

definition failing_device :: device where
  "failing_device = \<lparr>http_reply = HttpStatus 500, ws_reply = WsDone\<rparr>"

definition http_controller :: controller where
  "http_controller = (init_controller (Obj 0))\<lparr>display_method_var := Some ''HTTP''\<rparr>"

subsection \<open>The gesture configuration (load\_gesture\_config, lines 166-177)\<close>

text \<open>
  The state of \<^verbatim>\<open>gesture_config.json\<close> as the loader meets it: no such file, a file
  that \<^verbatim>\<open>open\<close> cannot read, a file that is not JSON, or a file holding a JSON value.
\<close>

datatype config_file = Absent | Unreadable | Malformed | Holds pyval

definition json_load :: "config_file \<Rightarrow> py_error + pyval" where
  "json_load cfile =
     (case cfile of
        Absent \<Rightarrow> Inl OSError
      | Unreadable \<Rightarrow> Inl OSError
      | Malformed \<Rightarrow> Inl JSONDecodeError
      | Holds v \<Rightarrow> Inr v)"

text \<open>
  \<^verbatim>\<open>k not in cfg\<close> (line 172) tests a key of a dictionary, an element of a list and a
  substring of a string; on any other value it raises TypeError.
\<close>

fun py_contains :: "pyval \<Rightarrow> string \<Rightarrow> py_error + bool" where
  "py_contains (PDict d) k = Inr (k \<in> set (map fst d))"
| "py_contains (PList xs) k = Inr (PStr k \<in> set xs)"
| "py_contains (PStr s) k = Inr (bytes_find s k \<noteq> None)"
| "py_contains _ k = Inl TypeError"

text \<open>
  \<^verbatim>\<open>obj[k] = v\<close> for a string \<open>k\<close> (lines 173 and 1049): an update in place of the
  dictionary the reference points to, TypeError on a list, a string or a scalar.
\<close>

definition setitem_at :: "store \<Rightarrow> ref \<Rightarrow> string \<Rightarrow> pyval \<Rightarrow> py_error + store" where
  "setitem_at st r k v =
     (case r of
        DefaultsRef \<Rightarrow>
          Inr (st\<lparr>default_gesture_actions := AList.update k v (default_gesture_actions st)\<rparr>)
      | Obj a \<Rightarrow>
          (case objects st ! a of
             PDict d \<Rightarrow> Inr (st\<lparr>objects := (objects st)[a := PDict (AList.update k v d)]\<rparr>)
           | _ \<Rightarrow> Inl TypeError))"

text \<open>Lines 171-173: the loop over the keys of the default mapping.\<close>

fun fill_defaults :: "(string \<times> pyval) list \<Rightarrow> ref \<Rightarrow> store \<Rightarrow> py_error + store" where
  "fill_defaults [] cfg st = Inr st"
| "fill_defaults ((k, v) # rest) cfg st =
     sum_bind (py_contains (deref st cfg) k) (\<lambda>present.
       if \<not> present then sum_bind (setitem_at st cfg k v) (fill_defaults rest cfg)
       else fill_defaults rest cfg st)"

text \<open>
  Lines 169-174, the body of the \<^verbatim>\<open>try\<close>: \<^verbatim>\<open>json.load\<close> builds a new object, the
  loop fills it in place, and it is returned.
\<close>

definition try_load :: "config_file \<Rightarrow> store \<Rightarrow> py_error + (store \<times> ref)" where
  "try_load cfile st =
     sum_bind (json_load cfile) (\<lambda>v.
       let (st, cfg) = alloc st v
       in sum_bind (fill_defaults (default_gesture_actions st) cfg st) (\<lambda>st. Inr (st, cfg)))"

text \<open>\<^verbatim>\<open>DEFAULT_GESTURE_ACTIONS.copy()\<close>: a new dictionary with the same items.\<close>

definition defaults_copy :: "store \<Rightarrow> store \<times> ref" where
  "defaults_copy st = alloc st (PDict (default_gesture_actions st))"

text \<open>
  Lines 166-177. The \<^verbatim>\<open>try\<close> is entered when \<^verbatim>\<open>os.path.exists\<close> holds; its handler
  catches every exception, prints, and falls through to the copy of the defaults. An
  object the failed attempt allocated is unreachable and is dropped from the store.
\<close>

definition load_gesture_config :: "config_file \<Rightarrow> store \<Rightarrow> py_error + (store \<times> ref)" where
  "load_gesture_config cfile st =
     (if cfile \<noteq> Absent then
        (case try_load cfile st of
           Inr r \<Rightarrow> Inr r
         | Inl e \<Rightarrow> Inr (defaults_copy st))
      else Inr (defaults_copy st))"

subsection \<open>Editing the mapping (update\_gesture\_mapping, save\_gesture\_config)\<close>

text \<open>
  Lines 179-185: \<^verbatim>\<open>open(..., 'w')\<close> raises and the file stays as it is, or
  \<^verbatim>\<open>json.dump\<close> raises after the file was truncated, or the mapping is written. The
  handler catches every exception.
\<close>

datatype disk = WriteOk | OpenRaises | DumpRaises

definition save_gesture_config :: "disk \<Rightarrow> controller \<Rightarrow> store \<Rightarrow> config_file \<Rightarrow> config_file" where
  "save_gesture_config dk self st cfile =
     (case dk of
        WriteOk \<Rightarrow> Holds (deref st (gesture_actions self))
      | OpenRaises \<Rightarrow> cfile
      | DumpRaises \<Rightarrow> Malformed)"

text \<open>Lines 1048-1051: the assignment, then the save.\<close>

definition update_gesture_mapping ::
  "disk \<Rightarrow> string \<Rightarrow> string \<Rightarrow> controller \<Rightarrow> store \<times> config_file
     \<Rightarrow> py_error + (store \<times> config_file)" where
  "update_gesture_mapping dk gesture action self w =
     (case w of (st, cfile) \<Rightarrow>
        sum_bind (setitem_at st (gesture_actions self) gesture (PStr action)) (\<lambda>st.
          Inr (st, save_gesture_config dk self st cfile)))"

text \<open>
  A reference is valid when it points to an object of the store. \<open>loaded_store\<close> is
  the store after start-up with no configuration file: object 0 is the controller's
  mapping, a copy of the defaults.
\<close>

definition valid_ref :: "store \<Rightarrow> ref \<Rightarrow> bool" where
  "valid_ref st r = (case r of DefaultsRef \<Rightarrow> True | Obj a \<Rightarrow> a < length (objects st))"

definition loaded_store :: store where
  "loaded_store = init_store\<lparr>objects := [PDict DEFAULT_GESTURE_ACTIONS]\<rparr>"

subsection \<open>Delimited images, complete poses and sample streams\<close>

text \<open>
  What the demux loop needs of an image in the stream: it starts with the start
  marker, and its only end marker is its last two bytes. Whether the bytes decode is
  up to \<^verbatim>\<open>cv2.imdecode\<close>, a parameter of the loop.
\<close>

definition jpeg_delimited :: "byte list \<Rightarrow> bool" where
  "jpeg_delimited img \<longleftrightarrow> take 2 img = SOI \<and> bytes_find img EOI = Some (length img - 2)"

text \<open>The first hand of a tick, if there is one, has all 21 landmarks, as MediaPipe's have.\<close>

definition complete_poses :: "tick \<Rightarrow> bool" where
  "complete_poses t =
     (case multi_hand_landmarks t of [] \<Rightarrow> True | hand_landmarks # _ \<Rightarrow> 21 \<le> length hand_landmarks)"

text \<open>
  Two five-byte delimited images, a tick that carries a chunk and a fist, and a tick
  that carries one zero byte and no hand.
\<close>

definition img_a :: "byte list" where
  "img_a = [0xFF, 0xD8, 0x00, 0xFF, 0xD9]"

definition img_b :: "byte list" where
  "img_b = [0xFF, 0xD8, 0x01, 0xFF, 0xD9]"

definition pose_tick :: "byte list \<Rightarrow> real \<Rightarrow> tick" where
  "pose_tick c now = \<lparr>chunk = c, multi_hand_landmarks = [fist_pose], clock = now\<rparr>"

definition zero_tick :: tick where
  "zero_tick = \<lparr>chunk = [0x00], multi_hand_landmarks = [], clock = 0\<rparr>"

subsection \<open>Stopping the stream while the loop runs (stop\_stream, lines 624-627)\<close>

text \<open>
  \<^verbatim>\<open>stop_stream\<close> runs on the GUI thread while \<^verbatim>\<open>process_esp32_stream\<close> runs on
  its own thread. It clears the flag (and relabels the button and logs) and returns.
\<close>

definition stop_stream :: "controller \<Rightarrow> controller" where
  "stop_stream self = self\<lparr>is_running := False\<rparr>"

text \<open>
  The two threads interleave. The ingestion thread is at the top of an iteration
  (about to take the next chunk and test \<^verbatim>\<open>is_running\<close>, lines 634-636), past the
  test with the chunk in hand (about to run lines 637-659), or out of the loop. An
  event is one atomic step of one thread: \<open>StopStream\<close> is the GUI thread's call;
  \<open>Fetch\<close> takes a chunk and tests the flag; \<open>Body\<close> runs the rest of the iteration;
  \<open>StreamEnd\<close> is the iterator running out. A step that is not enabled where the
  thread stands leaves the state as it is. The body neither reads nor writes
  \<^verbatim>\<open>is_running\<close>, so taking it as one step loses no interleaving.
\<close>

datatype loop_pc = AtTop | InBody tick | Ended

datatype event = StopStream | Fetch tick | Body | StreamEnd

record pipeline =
  p_ctl :: controller
  p_buf :: "byte list"
  p_pc :: loop_pc
  p_started :: "(string \<times> real) list"

fun pipeline_step :: "(byte list \<Rightarrow> 'f option) \<Rightarrow> pipeline \<Rightarrow> event \<Rightarrow> pipeline" where
  "pipeline_step imdecode s StopStream = s\<lparr>p_ctl := stop_stream (p_ctl s)\<rparr>"
| "pipeline_step imdecode s (Fetch t) =
     (case p_pc s of
        AtTop \<Rightarrow> if \<not> is_running (p_ctl s) then s\<lparr>p_pc := Ended\<rparr> else s\<lparr>p_pc := InBody t\<rparr>
      | _ \<Rightarrow> s)"
| "pipeline_step imdecode s Body =
     (case p_pc s of
        InBody t \<Rightarrow>
          (case loop_body imdecode (p_ctl s) (p_buf s) t of
             Inl e \<Rightarrow> s\<lparr>p_pc := Ended\<rparr>
           | Inr (self', bytes_data', out) \<Rightarrow>
               s\<lparr>p_ctl := self', p_buf := bytes_data', p_pc := AtTop,
                 p_started := p_started s @ (case started out of None \<Rightarrow> [] | Some th \<Rightarrow> [th])\<rparr>)
      | _ \<Rightarrow> s)"
| "pipeline_step imdecode s StreamEnd =
     (case p_pc s of AtTop \<Rightarrow> s\<lparr>p_pc := Ended\<rparr> | _ \<Rightarrow> s)"

fun pipeline_run :: "(byte list \<Rightarrow> 'f option) \<Rightarrow> pipeline \<Rightarrow> event list \<Rightarrow> pipeline" where
  "pipeline_run imdecode s [] = s"
| "pipeline_run imdecode s (e # es) = pipeline_run imdecode (pipeline_step imdecode s e) es"

text \<open>
  The pipeline right after \<^verbatim>\<open>start_stream\<close>, whether the ingestion thread holds a
  chunk whose test has passed, and the schedule in which the ingestion thread runs
  alone over the chunks of a stream.
\<close>

definition start_pipeline :: "controller \<Rightarrow> pipeline" where
  "start_pipeline self = \<lparr>p_ctl = self, p_buf = [], p_pc = AtTop, p_started = []\<rparr>"

definition in_body :: "pipeline \<Rightarrow> bool" where
  "in_body s = (case p_pc s of InBody t \<Rightarrow> True | _ \<Rightarrow> False)"

definition sequential :: "tick list \<Rightarrow> event list" where
  "sequential ts = concat (map (\<lambda>t. [Fetch t, Body]) ts) @ [StreamEnd]"

subsection \<open>A sample run for the cooldown\<close>

text \<open>
  A tick that carries a chunk and no hand. Four ticks, each carrying one whole image: a
  fist at time 2, no hand at 3.5, a fist at 4.2 and a fist at 5.2; and what the four
  iterations do.
\<close>

definition nohand_tick :: "byte list \<Rightarrow> real \<Rightarrow> tick" where
  "nohand_tick c now = \<lparr>chunk = c, multi_hand_landmarks = [], clock = now\<rparr>"

definition cooldown_ticks :: "tick list" where
  "cooldown_ticks =
     [pose_tick img_a 2, nohand_tick img_a 3.5, pose_tick img_a 4.2, pose_tick img_a 5.2]"

definition cooldown_outs :: "byte list emitted list" where
  "cooldown_outs =
     [\<lparr>frame = Some img_a, started = Some (''fist'', 2)\<rparr>,
      \<lparr>frame = Some img_a, started = None\<rparr>,
      \<lparr>frame = Some img_a, started = Some (''fist'', 4.2)\<rparr>,
      \<lparr>frame = Some img_a, started = None\<rparr>]"

section \<open>Properties\<close>

subsection \<open>The cooldown gate\<close>

lemma gesture_gate_cases:
  assumes "gesture_gate self g now = (self', th)"
  shows "gesture_cooldown self' = gesture_cooldown self \<and> is_running self' = is_running self \<and>
         ((th = None \<and> last_gesture_time self' = last_gesture_time self) \<or>
          (th = Some g \<and> now - last_gesture_time self > gesture_cooldown self \<and> last_gesture_time self' = now))"
  using assms by (auto simp: gesture_gate_def split: if_splits)

lemma loop_body_cases:
  assumes "loop_body imdecode self buf t = Inr (self', buf', out)"
  shows "gesture_cooldown self' = gesture_cooldown self \<and> is_running self' = is_running self \<and>
         ((started out = None \<and> last_gesture_time self' = last_gesture_time self) \<or>
          (\<exists>g. started out = Some (g, clock t) \<and> clock t - last_gesture_time self > gesture_cooldown self
               \<and> last_gesture_time self' = clock t))"
  using assms
  by (auto simp: loop_body_def Let_def sum_bind_def split: option.splits sum.splits prod.splits dest!: gesture_gate_cases)

lemma fired_times_Cons:
  "fired_times (out # outs) = (case started out of None \<Rightarrow> fired_times outs | Some p \<Rightarrow> snd p # fired_times outs)"
  by (simp add: fired_times_def List.map_filter_simps split: option.splits)

lemma fired_times_Nil: "fired_times [] = []"
  by (simp add: fired_times_def List.map_filter_simps)

lemma stream_loop_spaced:
  "stream_loop imdecode self buf ts = (self', buf', outs) \<Longrightarrow>
     spaced (gesture_cooldown self) (last_gesture_time self) (fired_times outs)"
proof (induction ts arbitrary: self buf self' buf' outs)
  case Nil
  then show ?case by (simp add: fired_times_Nil)
next
  case (Cons t ts)
  show ?case
  proof (cases "is_running self")
    case False
    with Cons.prems show ?thesis by (simp add: fired_times_Nil)
  next
    case True
    show ?thesis
    proof (cases "loop_body imdecode self buf t")
      case (Inl e)
      with True Cons.prems show ?thesis by (simp add: fired_times_Nil)
    next
      case (Inr r)
      obtain s1 b1 out where r: "r = (s1, b1, out)" by (cases r) auto
      obtain s2 b2 outs2 where rec: "stream_loop imdecode s1 b1 ts = (s2, b2, outs2)"
        by (cases "stream_loop imdecode s1 b1 ts") auto
      from Cons.prems True Inr r rec have outs: "outs = out # outs2" by simp
      from Cons.IH [OF rec]
      have ih: "spaced (gesture_cooldown s1) (last_gesture_time s1) (fired_times outs2)" .
      from Inr r have "loop_body imdecode self buf t = Inr (s1, b1, out)" by simp
      from loop_body_cases [OF this] ih show ?thesis
        unfolding outs by (auto simp: fired_times_Cons)
    qed
  qed
qed

lemma spaced_all: "0 < c \<Longrightarrow> spaced c l ts \<Longrightarrow> t \<in> set ts \<Longrightarrow> t - l > c"
  by (induction ts arbitrary: l) force+

lemma spaced_nth:
  "0 < c \<Longrightarrow> spaced c l ts \<Longrightarrow> i < j \<Longrightarrow> j < length ts \<Longrightarrow> ts ! j - ts ! i > c"
proof (induction ts arbitrary: l i j)
  case Nil
  then show ?case by simp
next
  case (Cons t ts)
  show ?case
  proof (cases i)
    case 0
    with Cons.prems obtain j' where j: "j = Suc j'" "j' < length ts" by (cases j) auto
    then have "ts ! j' \<in> set ts" by simp
    from spaced_all [OF Cons.prems(1) _ this, of t] Cons.prems(2) have "ts ! j' - t > c" by simp
    with 0 j show ?thesis by simp
  next
    case (Suc i')
    with Cons.prems obtain j' where j: "j = Suc j'" "j' < length ts" "i' < j'" by (cases j) auto
    from Cons.prems(2) have "spaced c t ts" by simp
    from Cons.IH [OF Cons.prems(1) this j(3) j(2)] Suc j show ?thesis by simp
  qed
qed


lemma detect_fist: "detect_gesture fist_pose = Inr ''fist''"
  by (simp add: detect_gesture_def fist_pose_def getitem_def sum_bind_def decide_gesture_def)

lemma extract_ex: "extract_jpg [0xFF, 0xD8, 0x00, 0xFF, 0xD9] = Some ([0xFF, 0xD8, 0x00, 0xFF, 0xD9], [])"
  by (simp add: extract_jpg_def SOI_def EOI_def)

lemma loop_body_gate:
  assumes "loop_body imdecode self buf t = Inr (self', buf', out)"
  shows "gesture_cooldown self' = gesture_cooldown self"
    and "started out \<noteq> None \<longleftrightarrow>
           frame out \<noteq> None \<and> (\<exists>g. classify_tick t = Inr g \<and> g \<noteq> ''None'')
           \<and> clock t - last_gesture_time self > gesture_cooldown self"
    and "started out = Some (g, t') \<Longrightarrow> classify_tick t = Inr g \<and> t' = clock t"
    and "last_gesture_time self' = last_fired (last_gesture_time self) [out]"
  using assms
  by (auto simp: loop_body_def classify_tick_def gesture_gate_def sum_bind_def Let_def
      last_fired_def fired_times_def List.map_filter_simps
      split: option.splits sum.splits if_splits prod.splits)

lemma last_fired_Cons:
  "last_fired l (out # outs) = last_fired (last_fired l [out]) outs"
  by (simp add: last_fired_def fired_times_Cons fired_times_Nil split: option.splits)

lemma last_fired_Nil: "last_fired l [] = l"
  by (simp add: last_fired_def fired_times_Nil)

lemma stream_loop_fires:
  assumes "stream_loop imdecode self buf ts = (self', buf', outs)" and "k < length outs"
  shows "(started (outs ! k) \<noteq> None \<longleftrightarrow>
            frame (outs ! k) \<noteq> None \<and> (\<exists>g. classify_tick (ts ! k) = Inr g \<and> g \<noteq> ''None'')
            \<and> clock (ts ! k) - last_fired (last_gesture_time self) (take k outs)
                > gesture_cooldown self)
         \<and> (\<forall>g t'. started (outs ! k) = Some (g, t') \<longrightarrow>
               classify_tick (ts ! k) = Inr g \<and> t' = clock (ts ! k))"
  using assms
proof (induction ts arbitrary: self buf outs k self' buf')
  case Nil
  then show ?case by simp
next
  case (Cons t ts)
  from Cons.prems have run: "is_running self" by (auto split: if_splits)
  from Cons.prems run obtain s1 b1 out where
    b: "loop_body imdecode self buf t = Inr (s1, b1, out)"
    by (cases "loop_body imdecode self buf t") auto
  obtain s2 b2 outs2 where rec: "stream_loop imdecode s1 b1 ts = (s2, b2, outs2)"
    by (cases "stream_loop imdecode s1 b1 ts") auto
  from Cons.prems(1) run b rec have outs: "outs = out # outs2" by simp
  note g = loop_body_gate [OF b]
  show ?case
  proof (cases k)
    case 0
    with g(2) g(3) outs show ?thesis by (auto simp: last_fired_Nil)
  next
    case (Suc k')
    with Cons.prems(2) outs have k': "k' < length outs2" by simp
    have "take k outs = out # take k' outs2" unfolding Suc outs by simp
    with last_fired_Cons [of "last_gesture_time self" out "take k' outs2"] g(4)
    have e: "last_fired (last_gesture_time self) (take k outs)
        = last_fired (last_gesture_time s1) (take k' outs2)" by simp
    from Cons.IH [OF rec k'] g(1) Suc outs show ?thesis
      unfolding e by simp
  qed
qed

lemma stream_loop_last_fired:
  "stream_loop imdecode self buf ts = (self', buf', outs) \<Longrightarrow>
     last_gesture_time self' = last_fired (last_gesture_time self) outs
     \<and> gesture_cooldown self' = gesture_cooldown self"
proof (induction ts arbitrary: self buf outs self' buf')
  case Nil
  then show ?case by (simp add: last_fired_Nil)
next
  case (Cons t ts)
  show ?case
  proof (cases "is_running self")
    case False
    with Cons.prems show ?thesis by (simp add: last_fired_Nil)
  next
    case True
    show ?thesis
    proof (cases "loop_body imdecode self buf t")
      case (Inl e)
      with True Cons.prems show ?thesis by (simp add: last_fired_Nil)
    next
      case (Inr r)
      obtain s1 b1 out where r: "r = (s1, b1, out)" by (cases r) auto
      obtain s2 b2 outs2 where rec: "stream_loop imdecode s1 b1 ts = (s2, b2, outs2)"
        by (cases "stream_loop imdecode s1 b1 ts") auto
      from Cons.prems True Inr r rec have res: "outs = out # outs2" "self' = s2" by simp_all
      from Inr r have b: "loop_body imdecode self buf t = Inr (s1, b1, out)" by simp
      note g = loop_body_gate(1,4) [OF b]
      from last_fired_Cons [of "last_gesture_time self" out outs2] g(2)
      have e: "last_fired (last_gesture_time self) outs = last_fired (last_gesture_time s1) outs2"
        unfolding res by simp
      from Cons.IH [OF rec] g(1) res show ?thesis
        unfolding e by simp
    qed
  qed
qed


lemma last_fired_snoc:
  "last_fired l (outs @ [out]) = (case started out of None \<Rightarrow> last_fired l outs | Some p \<Rightarrow> snd p)"
  by (simp add: last_fired_def fired_times_def List.map_filter_def split: option.splits)

lemma last_fired_since:
  assumes "i < k" and "k \<le> length outs" and "started (outs ! i) = Some (gi, ti)"
    and "\<forall>m. i < m \<and> m < k \<longrightarrow> started (outs ! m) = None"
  shows "last_fired l (take k outs) = ti"
  using assms
proof (induction k)
  case 0
  then show ?case by simp
next
  case (Suc k)
  from Suc.prems(2) have k: "k < length outs" by simp
  then have t: "take (Suc k) outs = take k outs @ [outs ! k]"
    by (simp add: take_Suc_conv_app_nth)
  show ?case
  proof (cases "i = k")
    case True
    with Suc.prems(3) t show ?thesis by (simp add: last_fired_snoc)
  next
    case False
    with Suc.prems(1) have ik: "i < k" by simp
    with Suc.prems(4) have n: "started (outs ! k) = None" by simp
    from Suc.prems(4) have "\<forall>m. i < m \<and> m < k \<longrightarrow> started (outs ! m) = None" by simp
    from Suc.IH [OF ik _ Suc.prems(3) this] k have "last_fired l (take k outs) = ti" by simp
    with n t show ?thesis by (simp add: last_fired_snoc)
  qed
qed

lemma cooldown_run:
  "stream_loop Some running_controller [] cooldown_ticks
     = (running_controller\<lparr>last_gesture_time := 4.2, current_gesture := ''fist''\<rparr>, [],
        cooldown_outs)"
  by (simp add: cooldown_ticks_def cooldown_outs_def loop_body_def pose_tick_def nohand_tick_def
      img_a_def extract_ex detect_fist sum_bind_def gesture_gate_def running_controller_def
      init_controller_def)

text \<open>
  Claim C1 as stated fails at the boundary: with the cooldown at 1 second, a fist fires
  at time 2, and a second fist exactly one cooldown later, at time 3, is dropped,
  because line 654 compares with a strict \<open>>\<close>.
\<close>

theorem cooldown_boundary_counterexample:
  "snd (gesture_gate (init_controller (Obj 0)) ''fist'' 2) = Some ''fist''
   \<and> gesture_cooldown (init_controller (Obj 0)) \<le> 3 - 2
   \<and> snd (gesture_gate (fst (gesture_gate (init_controller (Obj 0)) ''fist'' 2)) ''fist'' 3) = None"
  by (simp add: gesture_gate_def init_controller_def)


text \<open>
  Claim C1, amended: in every run of the ingestion loop, an iteration starts an action
  thread if and only if it decoded a frame, the pose of that frame classified as a
  gesture other than \<open>None\<close>, and its time is more than the cooldown (strictly) after
  the time of the last action started before it in the run, or after the
  \<^verbatim>\<open>last_gesture_time\<close> the run began with when none was started; the thread is
  started with that gesture at that time. In particular, when an event fired at time
  \<open>ti\<close> and nothing fired since, the next event with a gesture other than \<open>None\<close>,
  at time \<open>t\<close>, fires if and only if \<open>t - ti\<close> is greater than the cooldown. Frames
  with no hand and dropped gestures leave the cooldown clock as it is: at the end
  \<^verbatim>\<open>last_gesture_time\<close> is the time of the last action started. And for a cooldown
  \<open>c > 0\<close> any two action threads of a run are started more than \<open>c\<close> seconds apart,
  so at most one action fires in any window of \<open>c\<close> seconds.
\<close>

theorem cooldown_gate_window:
  assumes run: "stream_loop imdecode self buf ts = (self', buf', outs)"
  shows "(\<forall>k<length outs.
            (started (outs ! k) \<noteq> None \<longleftrightarrow>
               frame (outs ! k) \<noteq> None
               \<and> (\<exists>g. classify_tick (ts ! k) = Inr g \<and> g \<noteq> ''None'')
               \<and> clock (ts ! k) - last_fired (last_gesture_time self) (take k outs)
                   > gesture_cooldown self)
            \<and> (\<forall>g t'. started (outs ! k) = Some (g, t') \<longrightarrow>
                  classify_tick (ts ! k) = Inr g \<and> t' = clock (ts ! k)))
       \<and> (\<forall>i k gi ti. i < k \<and> k < length outs \<and> started (outs ! i) = Some (gi, ti)
              \<and> (\<forall>m. i < m \<and> m < k \<longrightarrow> started (outs ! m) = None) \<longrightarrow>
            (started (outs ! k) \<noteq> None \<longleftrightarrow>
               frame (outs ! k) \<noteq> None
               \<and> (\<exists>g. classify_tick (ts ! k) = Inr g \<and> g \<noteq> ''None'')
               \<and> clock (ts ! k) - ti > gesture_cooldown self))
       \<and> last_gesture_time self' = last_fired (last_gesture_time self) outs
       \<and> gesture_cooldown self' = gesture_cooldown self
       \<and> (0 < gesture_cooldown self \<longrightarrow>
            (\<forall>i j. i < j \<and> j < length (fired_times outs) \<longrightarrow>
               fired_times outs ! j - fired_times outs ! i > gesture_cooldown self))"
proof (intro conjI allI impI)
  fix k assume k: "k < length outs"
  from stream_loop_fires [OF run k]
  show "started (outs ! k) \<noteq> None \<longleftrightarrow>
               frame (outs ! k) \<noteq> None
               \<and> (\<exists>g. classify_tick (ts ! k) = Inr g \<and> g \<noteq> ''None'')
               \<and> clock (ts ! k) - last_fired (last_gesture_time self) (take k outs)
                   > gesture_cooldown self"
    by blast
  fix g t' assume "started (outs ! k) = Some (g, t')"
  with stream_loop_fires [OF run k]
  show "classify_tick (ts ! k) = Inr g" and "t' = clock (ts ! k)" by blast+
next
  fix i k gi ti
  assume h: "i < k \<and> k < length outs \<and> started (outs ! i) = Some (gi, ti)
              \<and> (\<forall>m. i < m \<and> m < k \<longrightarrow> started (outs ! m) = None)"
  then have k: "k < length outs" by simp
  from h have "last_fired (last_gesture_time self) (take k outs) = ti"
    by (intro last_fired_since [of i k outs gi ti]) simp_all
  with stream_loop_fires [OF run k]
  show "started (outs ! k) \<noteq> None \<longleftrightarrow>
               frame (outs ! k) \<noteq> None
               \<and> (\<exists>g. classify_tick (ts ! k) = Inr g \<and> g \<noteq> ''None'')
               \<and> clock (ts ! k) - ti > gesture_cooldown self"
    by simp
next
  from stream_loop_last_fired [OF run]
  show "last_gesture_time self' = last_fired (last_gesture_time self) outs"
    and "gesture_cooldown self' = gesture_cooldown self" by simp_all
next
  fix i j
  assume c: "0 < gesture_cooldown self" and ij: "i < j \<and> j < length (fired_times outs)"
  from stream_loop_spaced [OF run]
  have "spaced (gesture_cooldown self) (last_gesture_time self) (fired_times outs)" .
  from spaced_nth [OF c this] ij
  show "fired_times outs ! j - fired_times outs ! i > gesture_cooldown self" by simp
qed


theorem cooldown_gate_window_witness:
  "stream_loop Some running_controller [] cooldown_ticks
     = (running_controller\<lparr>last_gesture_time := 4.2, current_gesture := ''fist''\<rparr>, [],
        cooldown_outs)
   \<and> classify_tick (cooldown_ticks ! 1) = Inr ''None''
   \<and> started (cooldown_outs ! 2) = Some (''fist'', 4.2)
   \<and> started (cooldown_outs ! 3) = None
   \<and> 0 < gesture_cooldown running_controller
   \<and> fired_times cooldown_outs ! 1 - fired_times cooldown_outs ! 0
       > gesture_cooldown running_controller"
proof -
  note T = cooldown_gate_window [OF cooldown_run]
  have c: "0 < gesture_cooldown running_controller"
    by (simp add: running_controller_def init_controller_def)
  have n: "classify_tick (cooldown_ticks ! 1) = Inr ''None''"
    by (simp add: classify_tick_def cooldown_ticks_def nohand_tick_def)
  have s2: "started (cooldown_outs ! 2) = Some (''fist'', 4.2)"
    by (simp add: cooldown_outs_def)
  have p: "(2::nat) < 3 \<and> 3 < length cooldown_outs
      \<and> started (cooldown_outs ! 2) = Some (''fist'', 4.2)
      \<and> (\<forall>m. (2::nat) < m \<and> m < 3 \<longrightarrow> started (cooldown_outs ! m) = None)"
    by (auto simp: cooldown_outs_def)
  from T [THEN conjunct2, THEN conjunct1, rule_format, of 2 3 "''fist''" "4.2", OF p]
  have s3: "started (cooldown_outs ! 3) = None"
    by (cases "started (cooldown_outs ! 3)")
       (simp_all add: cooldown_ticks_def pose_tick_def running_controller_def init_controller_def)
  have l: "(0::nat) < 1 \<and> 1 < length (fired_times cooldown_outs)"
    by (simp add: cooldown_outs_def fired_times_def List.map_filter_simps)
  from T [THEN conjunct2, THEN conjunct2, THEN conjunct2, THEN conjunct2, rule_format, OF c l]
  have g: "fired_times cooldown_outs ! 1 - fired_times cooldown_outs ! 0
       > gesture_cooldown running_controller" .
  from cooldown_run n s2 s3 c g show ?thesis by blast
qed

subsection \<open>The classifier\<close>

lemma detect_gesture_short: "length landmarks < 21 \<Longrightarrow> detect_gesture landmarks = Inl IndexError"
  by (simp add: detect_gesture_def getitem_def sum_bind_def)

lemma detect_gesture_full:
  "21 \<le> length landmarks \<Longrightarrow>
   detect_gesture landmarks =
     Inr (decide_gesture
            (lm_y (landmarks ! 4) < lm_y (landmarks ! 3))
            (lm_y (landmarks ! 8) < lm_y (landmarks ! 5))
            (lm_y (landmarks ! 12) < lm_y (landmarks ! 9))
            (lm_y (landmarks ! 16) < lm_y (landmarks ! 13))
            (lm_y (landmarks ! 20) < lm_y (landmarks ! 17))
            (thumb_index_dist (landmarks ! 4) (landmarks ! 8)))"
  by (simp add: detect_gesture_def getitem_def sum_bind_def)

text \<open>
  Claim C6 as stated fails: a pose of 20 landmarks does not classify as \<open>None\<close>, the
  read of \<^verbatim>\<open>landmarks[20]\<close> raises IndexError.
\<close>

theorem detect_gesture_short_pose_counterexample:
  "length (replicate 20 \<lparr>lm_x = 0.5, lm_y = 0.5\<rparr>) < 21
   \<and> detect_gesture (replicate 20 \<lparr>lm_x = 0.5, lm_y = 0.5\<rparr>) \<noteq> Inr ''None''
   \<and> detect_gesture (replicate 20 \<lparr>lm_x = 0.5, lm_y = 0.5\<rparr>) = Inl IndexError"
  by (simp add: detect_gesture_def getitem_def sum_bind_def)

text \<open>
  Claim C6, amended: \<^verbatim>\<open>detect_gesture\<close> raises IndexError exactly for the poses with
  fewer than 21 landmarks, and returns a label exactly for the poses with at least 21.
\<close>

theorem detect_gesture_short_pose_raises:
  "(detect_gesture landmarks = Inl IndexError \<longleftrightarrow> length landmarks < 21)
   \<and> ((\<exists>g. detect_gesture landmarks = Inr g) \<longleftrightarrow> 21 \<le> length landmarks)"
proof (cases "length landmarks < 21")
  case True
  then show ?thesis by (simp add: detect_gesture_short)
next
  case False
  then have "21 \<le> length landmarks" by simp
  from detect_gesture_full [OF this] False show ?thesis by simp
qed

theorem detect_gesture_short_pose_raises_witness:
  "detect_gesture (replicate 20 \<lparr>lm_x = 0.5, lm_y = 0.5\<rparr>) = Inl IndexError
   \<and> detect_gesture [] = Inl IndexError
   \<and> (\<exists>g. detect_gesture fist_pose = Inr g)"
  using detect_gesture_short_pose_raises [of "replicate 20 \<lparr>lm_x = 0.5, lm_y = 0.5\<rparr>"]
        detect_gesture_short_pose_raises [of "[]"]
        detect_gesture_short_pose_raises [of fist_pose]
  by (simp add: fist_pose_def)

lemma decide_gesture_first:
  "decide_gesture thumb_up index_up middle_up ring_up pinky_up tid =
     (case map fst (filter snd
           [(''thumbs_up'', thumb_up \<and> \<not> index_up \<and> \<not> middle_up \<and> \<not> ring_up \<and> \<not> pinky_up),
            (''peace'', index_up \<and> middle_up \<and> \<not> ring_up \<and> \<not> pinky_up),
            (''fist'', length (filter id [index_up, middle_up, ring_up, pinky_up]) = 0 \<and> \<not> thumb_up),
            (''open_palm'', length (filter id [index_up, middle_up, ring_up, pinky_up]) = 4 \<and> thumb_up),
            (''pointing'', index_up \<and> \<not> middle_up \<and> \<not> ring_up \<and> \<not> pinky_up),
            (''ok_sign'', tid < 0.05 \<and> middle_up \<and> ring_up),
            (''pinch'', tid < 0.08 \<and> \<not> middle_up \<and> \<not> ring_up)]) of
        [] \<Rightarrow> ''None'' | g # _ \<Rightarrow> g)"
  by (cases thumb_up; cases index_up; cases middle_up; cases ring_up; cases pinky_up)
     (simp_all add: decide_gesture_def)

lemma detect_gesture_matching:
  assumes "21 \<le> length landmarks"
  shows "detect_gesture landmarks = Inr (case matching landmarks of [] \<Rightarrow> ''None'' | g # _ \<Rightarrow> g)"
  unfolding detect_gesture_full [OF assms] decide_gesture_first matching_def Let_def ..

lemma thumb_pinch_matching: "matching thumb_pinch_pose = [''thumbs_up'', ''pinch'']"
  by (simp add: matching_def thumb_pinch_pose_def thumb_index_dist_def)

lemma peace_near_matching: "matching peace_near_pose = [''peace'']"
  by (simp add: matching_def peace_near_pose_def thumb_index_dist_def)

text \<open>
  Claim C9 as stated fails: a pose that satisfies the conditions of both \<open>thumbs_up\<close>
  and \<open>pinch\<close> classifies as \<open>thumbs_up\<close>, not as \<open>None\<close>; and a pose with the
  \<open>peace\<close> finger pattern whose thumb and index tips are closer than 0.05 classifies
  as \<open>peace\<close>.
\<close>

theorem detect_gesture_ambiguous_counterexample:
  "matching thumb_pinch_pose = [''thumbs_up'', ''pinch'']
   \<and> detect_gesture thumb_pinch_pose = Inr ''thumbs_up''
   \<and> detect_gesture thumb_pinch_pose \<noteq> Inr ''None''
   \<and> thumb_index_dist (peace_near_pose ! 4) (peace_near_pose ! 8) < 0.05
   \<and> detect_gesture peace_near_pose = Inr ''peace''"
proof -
  have l: "21 \<le> length thumb_pinch_pose" "21 \<le> length peace_near_pose"
    by (simp_all add: thumb_pinch_pose_def peace_near_pose_def)
  have a: "detect_gesture thumb_pinch_pose = Inr ''thumbs_up''"
    using detect_gesture_matching [OF l(1)] by (simp add: thumb_pinch_matching)
  have b: "detect_gesture peace_near_pose = Inr ''peace''"
    using detect_gesture_matching [OF l(2)] by (simp add: peace_near_matching)
  have c: "thumb_index_dist (peace_near_pose ! 4) (peace_near_pose ! 8) < 0.05"
    by (simp add: peace_near_pose_def thumb_index_dist_def)
  from a b c thumb_pinch_matching show ?thesis by simp
qed


text \<open>
  Claim C9, amended: for every pose of at least 21 landmarks \<^verbatim>\<open>detect_gesture\<close>
  returns exactly one label: the first one, in the order thumbs\_up, peace, fist,
  open\_palm, pointing, ok\_sign, pinch, whose condition the pose satisfies, and
  \<open>None\<close> only when it satisfies none of them.
\<close>

theorem detect_gesture_first_match:
  assumes "21 \<le> length landmarks"
  shows "detect_gesture landmarks = Inr (case matching landmarks of [] \<Rightarrow> ''None'' | g # _ \<Rightarrow> g)"
  using assms by (rule detect_gesture_matching)

theorem detect_gesture_first_match_witness:
  "21 \<le> length thumb_pinch_pose \<and> detect_gesture thumb_pinch_pose = Inr ''thumbs_up''
   \<and> detect_gesture fist_pose = Inr ''fist''"
proof -
  have l: "21 \<le> length thumb_pinch_pose" "21 \<le> length fist_pose"
    by (simp_all add: thumb_pinch_pose_def fist_pose_def)
  have "matching fist_pose = [''fist'', ''pinch'']"
    by (simp add: matching_def fist_pose_def thumb_index_dist_def)
  with detect_gesture_first_match [OF l(1)] detect_gesture_first_match [OF l(2)] l(1)
  show ?thesis by (simp add: thumb_pinch_matching)
qed


subsection \<open>The display channel\<close>

lemma send_available_iff:
  "display_available (fst (send_to_esp32_display dev message self)) \<longleftrightarrow>
     display_available self \<and>
     (if selected_method self = ''HTTP'' then http_reply dev \<noteq> HttpRaises
      else ws_reply dev = WsDone)"
  by (simp add: send_to_esp32_display_def split: http_outcome.splits ws_outcome.splits)

lemma send_unavailable:
  "\<not> display_available self \<Longrightarrow> send_to_esp32_display dev message self = (self, [], NotAvailable)"
  by (simp add: send_to_esp32_display_def)

lemma update_keeps_available:
  "display_available (update_esp32_settings ip sp wp self) = display_available self"
  by (simp add: update_esp32_settings_def Let_def split: option.splits)

lemma display_run_unavailable:
  "\<not> display_available self \<Longrightarrow>
     snd (display_run self ops) = [] \<and> \<not> display_available (fst (display_run self ops))"
proof (induction ops arbitrary: self)
  case Nil
  then show ?case by simp
next
  case (Cons op ops)
  show ?case
  proof (cases op)
    case (Send dev message)
    from Cons.prems have "send_to_esp32_display dev message self = (self, [], NotAvailable)"
      by (rule send_unavailable)
    with Send Cons.IH [OF Cons.prems] show ?thesis
      by (simp split: prod.splits)
  next
    case (UpdateSettings ip sp wp)
    from Cons.prems have "\<not> display_available (update_esp32_settings ip sp wp self)"
      by (simp add: update_keeps_available)
    from Cons.IH [OF this] UpdateSettings show ?thesis by simp
  qed
qed

text \<open>
  Claim C2 as stated fails twice. Over HTTP a response with status 500 leaves
  \<^verbatim>\<open>display_available\<close> true (line 969 only logs). And after a failed WebSocket send
  has cleared the flag, \<^verbatim>\<open>update_esp32_settings\<close> does not set it again: the next
  send, to a device that would answer, makes no network call.
\<close>

theorem display_breaker_counterexample:
  "display_available http_controller
   \<and> send_to_esp32_display failing_device ''hi'' http_controller
       = (http_controller, [HttpPost ''http://192.168.1.42:80/display'' ''hi''], HttpErrorStatus 500)
   \<and> display_run (init_controller (Obj 0))
        [Send dead_device ''a'', UpdateSettings ''192.168.1.50'' ''80'' ''81'', Send live_device ''b'']
       = ((init_controller (Obj 0))\<lparr>esp32_ip := ''192.168.1.50'', display_available := False\<rparr>,
          [WsConnect ''ws://192.168.1.42:81''])"
  by (simp add: send_to_esp32_display_def http_controller_def init_controller_def failing_device_def
      dead_device_def live_device_def selected_method_def display_url_def ws_url_def
      update_esp32_settings_def)

text \<open>
  Claim C2, amended: after a send the flag is true exactly when it was true before and
  the transport call did not raise (over HTTP any response, whatever its status code,
  leaves it true); while the flag is false a send returns at once, with no network call
  and the controller unchanged; \<^verbatim>\<open>update_esp32_settings\<close> leaves the flag as it is;
  so once the flag is false, no sequence of sends and settings updates makes a network
  call or sets it to true again.
\<close>

theorem display_breaker_never_resets:
  "(display_available (fst (send_to_esp32_display dev message self)) \<longleftrightarrow>
      display_available self \<and>
      (if selected_method self = ''HTTP'' then http_reply dev \<noteq> HttpRaises
       else ws_reply dev = WsDone))
   \<and> (\<not> display_available self \<longrightarrow>
        send_to_esp32_display dev message self = (self, [], NotAvailable))
   \<and> display_available (update_esp32_settings ip sp wp self) = display_available self
   \<and> (\<not> display_available self \<longrightarrow>
        snd (display_run self ops) = [] \<and> \<not> display_available (fst (display_run self ops)))"
  using send_available_iff send_unavailable update_keeps_available display_run_unavailable
  by blast

theorem display_breaker_never_resets_witness:
  "\<not> display_available (fst (send_to_esp32_display dead_device ''a'' (init_controller (Obj 0))))
   \<and> send_to_esp32_display live_device ''b'' ((init_controller (Obj 0))\<lparr>display_available := False\<rparr>)
       = ((init_controller (Obj 0))\<lparr>display_available := False\<rparr>, [], NotAvailable)
   \<and> snd (display_run ((init_controller (Obj 0))\<lparr>display_available := False\<rparr>)
        [UpdateSettings ''192.168.1.50'' ''80'' ''81'', Send live_device ''b'']) = []"
  using display_breaker_never_resets [of dead_device "''a''" "init_controller (Obj 0)"]
    display_breaker_never_resets [of live_device "''b''" "(init_controller (Obj 0))\<lparr>display_available := False\<rparr>"
      _ _ _ "[UpdateSettings ''192.168.1.50'' ''80'' ''81'', Send live_device ''b'']"]
  by (simp add: init_controller_def dead_device_def selected_method_def)

subsection \<open>The gesture configuration\<close>

lemma fill_defaults_Obj_dict:
  assumes "a < length (objects st)" and "objects st ! a = PDict d"
  shows "\<exists>d'. fill_defaults ds (Obj a) st = Inr (st\<lparr>objects := (objects st)[a := PDict d']\<rparr>)
           \<and> map_of d' = map_of ds ++ map_of d
           \<and> set (map fst d') = set (map fst ds) \<union> set (map fst d)" 
  using assms
proof (induction ds arbitrary: st d)
  case Nil
  have "st\<lparr>objects := (objects st)[a := PDict d]\<rparr> = st"
    using Nil by (simp add: list_update_same_conv)
  then show ?case by (intro exI [of _ d]) simp
next
  case (Cons kv ds)
  obtain k v where kv: "kv = (k, v)" by (cases kv)
  show ?case
  proof (cases "k \<in> set (map fst d)")
    case True
    from Cons.IH [OF Cons.prems] obtain d' where
      d': "fill_defaults ds (Obj a) st = Inr (st\<lparr>objects := (objects st)[a := PDict d']\<rparr>)"
        "map_of d' = map_of ds ++ map_of d"
        "set (map fst d') = set (map fst ds) \<union> set (map fst d)" by blast
    from True have "k \<in> dom (map_of d)" by (simp add: dom_map_of_conv_image_fst)
    then obtain w where w: "map_of d k = Some w" by blast
    have "map_of (kv # ds) ++ map_of d = map_of ds ++ map_of d"
    proof (rule ext)
      fix x
      show "(map_of (kv # ds) ++ map_of d) x = (map_of ds ++ map_of d) x"
        using w unfolding kv by (cases "x = k") (auto simp: map_add_def split: option.splits)
    qed
    with d'(2) have m: "map_of d' = map_of (kv # ds) ++ map_of d" by simp
    have s: "set (map fst d') = set (map fst (kv # ds)) \<union> set (map fst d)"
      using d'(3) True unfolding kv by auto
    have "fill_defaults (kv # ds) (Obj a) st = Inr (st\<lparr>objects := (objects st)[a := PDict d']\<rparr>)"
      using d'(1) True Cons.prems unfolding kv by (simp add: sum_bind_def deref_def)
    with m s show ?thesis by blast
  next
    case False
    let ?d1 = "AList.update k v d"
    let ?st1 = "st\<lparr>objects := (objects st)[a := PDict ?d1]\<rparr>"
    have 1: "a < length (objects ?st1)" "objects ?st1 ! a = PDict ?d1"
      using Cons.prems by simp_all
    from Cons.IH [OF 1] obtain d' where
      d': "fill_defaults ds (Obj a) ?st1 = Inr (?st1\<lparr>objects := (objects ?st1)[a := PDict d']\<rparr>)"
        "map_of d' = map_of ds ++ map_of ?d1"
        "set (map fst d') = set (map fst ds) \<union> set (map fst ?d1)" by blast
    from False have n: "map_of d k = None" by (simp add: map_of_eq_None_iff)
    have "map_of ds ++ map_of ?d1 = map_of (kv # ds) ++ map_of d"
    proof (rule ext)
      fix x
      show "(map_of ds ++ map_of ?d1) x = (map_of (kv # ds) ++ map_of d) x"
        using n unfolding kv by (cases "x = k") (auto simp: map_add_def update_conv' split: option.splits)
    qed
    with d'(2) have m: "map_of d' = map_of (kv # ds) ++ map_of d" by simp
    have "fst ` set ?d1 = insert k (fst ` set d)"
      using dom_update [of k v d] by (simp add: dom_map_of_conv_image_fst)
    then have "set (map fst ?d1) = insert k (set (map fst d))" by simp
    with d'(3) have s: "set (map fst d') = set (map fst (kv # ds)) \<union> set (map fst d)"
      unfolding kv by auto
    have "fill_defaults (kv # ds) (Obj a) st = fill_defaults ds (Obj a) ?st1"
      using False Cons.prems unfolding kv by (simp add: sum_bind_def deref_def setitem_at_def)
    also note d'(1)
    also have "?st1\<lparr>objects := (objects ?st1)[a := PDict d']\<rparr> = st\<lparr>objects := (objects st)[a := PDict d']\<rparr>"
      by simp
    finally have "fill_defaults (kv # ds) (Obj a) st = Inr (st\<lparr>objects := (objects st)[a := PDict d']\<rparr>)" .
    with m s show ?thesis by blast
  qed
qed


lemma setitem_at_Obj:
  "setitem_at st (Obj a) k v = Inr st' \<Longrightarrow>
     \<exists>w. st' = st\<lparr>objects := (objects st)[a := w]\<rparr>"
  by (auto simp: setitem_at_def split: pyval.splits)

lemma fill_defaults_frame:
  "fill_defaults ds (Obj a) st = Inr st' \<Longrightarrow>
     \<exists>w. st' = st\<lparr>objects := (objects st)[a := w]\<rparr>"
proof (induction ds arbitrary: st)
  case Nil
  then have "st' = st\<lparr>objects := (objects st)[a := objects st ! a]\<rparr>" by simp
  then show ?case by blast
next
  case (Cons kv ds)
  obtain k v where kv: "kv = (k, v)" by (cases kv)
  from Cons.prems obtain present where p: "py_contains (deref st (Obj a)) k = Inr present"
    unfolding kv by (auto simp: sum_bind_def split: sum.splits)
  show ?case
  proof (cases present)
    case True
    with Cons.prems p have "fill_defaults ds (Obj a) st = Inr st'"
      unfolding kv by (simp add: sum_bind_def)
    then show ?thesis by (rule Cons.IH)
  next
    case False
    with Cons.prems p obtain st1 where
      s1: "setitem_at st (Obj a) k v = Inr st1" and r: "fill_defaults ds (Obj a) st1 = Inr st'"
      unfolding kv by (auto simp: sum_bind_def split: sum.splits)
    from setitem_at_Obj [OF s1] obtain w where w: "st1 = st\<lparr>objects := (objects st)[a := w]\<rparr>" ..
    from Cons.IH [OF r] obtain w' where "st' = st1\<lparr>objects := (objects st1)[a := w']\<rparr>" ..
    with w have "st' = st\<lparr>objects := (objects st)[a := w']\<rparr>" by simp
    then show ?thesis ..
  qed
qed

lemma load_absent_like:
  "cfile \<in> {Absent, Unreadable, Malformed} \<Longrightarrow>
     load_gesture_config cfile st =
       Inr (st\<lparr>objects := objects st @ [PDict (default_gesture_actions st)]\<rparr>,
            Obj (length (objects st)))"
  by (auto simp: load_gesture_config_def try_load_def json_load_def sum_bind_def
      defaults_copy_def alloc_def)

lemma load_fresh:
  "\<exists>st' a. load_gesture_config cfile st = Inr (st', Obj a)
     \<and> a = length (objects st)
     \<and> default_gesture_actions st' = default_gesture_actions st
     \<and> take a (objects st') = objects st"
proof (cases "try_load cfile st")
  case (Inl e)
  then show ?thesis
    by (simp add: load_gesture_config_def defaults_copy_def alloc_def)
next
  case (Inr r)
  then obtain v st1 where v: "json_load cfile = Inr v"
    and f: "fill_defaults (default_gesture_actions st) (Obj (length (objects st)))
              (st\<lparr>objects := objects st @ [v]\<rparr>) = Inr st1"
    and r: "r = (st1, Obj (length (objects st)))"
    by (auto simp: try_load_def sum_bind_def alloc_def split: sum.splits)
  from fill_defaults_frame [OF f] obtain w where
    "st1 = st\<lparr>objects := (objects st @ [v])[length (objects st) := w]\<rparr>" by auto
  then have st1: "st1 = st\<lparr>objects := objects st @ [w]\<rparr>" by simp
  from v have "cfile \<noteq> Absent" by (auto simp: json_load_def)
  with Inr r st1 show ?thesis
    by (simp add: load_gesture_config_def)
qed

lemma load_dict:
  "\<exists>d'. load_gesture_config (Holds (PDict d)) st =
          Inr (st\<lparr>objects := objects st @ [PDict d']\<rparr>, Obj (length (objects st)))
        \<and> map_of d' = map_of (default_gesture_actions st) ++ map_of d
        \<and> set (map fst d') = set (map fst (default_gesture_actions st)) \<union> set (map fst d)"
proof -
  let ?st1 = "st\<lparr>objects := objects st @ [PDict d]\<rparr>"
  let ?a = "length (objects st)"
  have "?a < length (objects ?st1)" and "objects ?st1 ! ?a = PDict d" by simp_all
  from fill_defaults_Obj_dict [OF this, of "default_gesture_actions st"] obtain d' where
    f: "fill_defaults (default_gesture_actions st) (Obj ?a) ?st1
          = Inr (?st1\<lparr>objects := (objects ?st1)[?a := PDict d']\<rparr>)"
    and m: "map_of d' = map_of (default_gesture_actions st) ++ map_of d"
    and s: "set (map fst d') = set (map fst (default_gesture_actions st)) \<union> set (map fst d)"
    by blast
  have "?st1\<lparr>objects := (objects ?st1)[?a := PDict d']\<rparr> = st\<lparr>objects := objects st @ [PDict d']\<rparr>"
    by simp
  with f have "try_load (Holds (PDict d)) st = Inr (st\<lparr>objects := objects st @ [PDict d']\<rparr>, Obj ?a)"
    by (simp add: try_load_def json_load_def sum_bind_def alloc_def)
  then have "load_gesture_config (Holds (PDict d)) st
      = Inr (st\<lparr>objects := objects st @ [PDict d']\<rparr>, Obj ?a)"
    by (simp add: load_gesture_config_def)
  with m s show ?thesis by blast
qed

lemma update_gesture_mapping_sets:
  assumes "valid_ref st (gesture_actions self)"
    and "deref st (gesture_actions self) = PDict d"
  shows "\<exists>st'. update_gesture_mapping dk gesture action self (st, cfile)
                 = Inr (st', save_gesture_config dk self st' cfile)
           \<and> deref st' (gesture_actions self) = PDict (AList.update gesture (PStr action) d)"
  using assms
  by (cases "gesture_actions self")
     (auto simp: update_gesture_mapping_def setitem_at_def sum_bind_def deref_def valid_ref_def)


text \<open>
  Claim C4 as stated fails: \<^verbatim>\<open>update_gesture_mapping\<close> accepts the action
  \<open>explode\<close>, which is not among \<^verbatim>\<open>AVAILABLE_ACTIONS\<close>, and changes the mapping
  of \<open>fist\<close>; it accepts the gesture \<open>wave\<close>, which is no gesture key, and adds
  it.
\<close>

theorem update_gesture_mapping_counterexample:
  "''explode'' \<notin> set AVAILABLE_ACTIONS
   \<and> ''wave'' \<notin> set (map fst DEFAULT_GESTURE_ACTIONS)
   \<and> update_gesture_mapping WriteOk ''fist'' ''explode'' (init_controller (Obj 0))
        (loaded_store, Absent)
       = Inr (loaded_store\<lparr>objects :=
                [PDict (AList.update ''fist'' (PStr ''explode'') DEFAULT_GESTURE_ACTIONS)]\<rparr>,
              Holds (PDict (AList.update ''fist'' (PStr ''explode'') DEFAULT_GESTURE_ACTIONS)))
   \<and> map_of (AList.update ''fist'' (PStr ''explode'') DEFAULT_GESTURE_ACTIONS) ''fist''
       = Some (PStr ''explode'')
   \<and> update_gesture_mapping WriteOk ''wave'' ''stop'' (init_controller (Obj 0))
        (loaded_store, Absent)
       = Inr (loaded_store\<lparr>objects := [PDict (DEFAULT_GESTURE_ACTIONS @ [(''wave'', PStr ''stop'')])]\<rparr>,
              Holds (PDict (DEFAULT_GESTURE_ACTIONS @ [(''wave'', PStr ''stop'')])))"
  by (simp add: update_gesture_mapping_def setitem_at_def sum_bind_def save_gesture_config_def
      deref_def init_controller_def loaded_store_def init_store_def AVAILABLE_ACTIONS_def
      DEFAULT_GESTURE_ACTIONS_def)

text \<open>
  Claim C4, amended: \<^verbatim>\<open>update_gesture_mapping(g, a)\<close> validates nothing. Whenever the
  controller's mapping is a dictionary, the call succeeds for every gesture string and
  every action string, maps \<open>g\<close> to \<open>a\<close>, leaves every other key as it was, and then
  saves.
\<close>

theorem update_gesture_mapping_unconditional:
  assumes "valid_ref st (gesture_actions self)"
    and "deref st (gesture_actions self) = PDict d"
  shows "\<exists>st' d'. update_gesture_mapping dk gesture action self (st, cfile)
                 = Inr (st', save_gesture_config dk self st' cfile)
           \<and> deref st' (gesture_actions self) = PDict d'
           \<and> map_of d' = (map_of d)(gesture \<mapsto> PStr action)"
proof -
  from update_gesture_mapping_sets [OF assms] obtain st' where
    "update_gesture_mapping dk gesture action self (st, cfile)
       = Inr (st', save_gesture_config dk self st' cfile)"
    "deref st' (gesture_actions self) = PDict (AList.update gesture (PStr action) d)"
    by blast
  moreover have "map_of (AList.update gesture (PStr action) d) = (map_of d)(gesture \<mapsto> PStr action)"
    by (rule update_conv')
  ultimately show ?thesis by blast
qed

theorem update_gesture_mapping_unconditional_witness:
  "valid_ref loaded_store (gesture_actions (init_controller (Obj 0)))
   \<and> deref loaded_store (gesture_actions (init_controller (Obj 0))) = PDict DEFAULT_GESTURE_ACTIONS
   \<and> (\<exists>st' d'. update_gesture_mapping WriteOk ''fist'' ''explode'' (init_controller (Obj 0))
                   (loaded_store, Absent)
                 = Inr (st', save_gesture_config WriteOk (init_controller (Obj 0)) st' Absent)
           \<and> deref st' (gesture_actions (init_controller (Obj 0))) = PDict d'
           \<and> map_of d' = (map_of DEFAULT_GESTURE_ACTIONS)(''fist'' \<mapsto> PStr ''explode''))"
proof -
  have v: "valid_ref loaded_store (gesture_actions (init_controller (Obj 0)))"
    by (simp add: valid_ref_def loaded_store_def init_controller_def)
  have d: "deref loaded_store (gesture_actions (init_controller (Obj 0))) = PDict DEFAULT_GESTURE_ACTIONS"
    by (simp add: deref_def loaded_store_def init_controller_def)
  from v d update_gesture_mapping_unconditional [OF v d, of WriteOk "''fist''" "''explode''" Absent]
  show ?thesis by blast
qed

text \<open>
  Claim C7 as stated fails in its part (b): a persisted key \<open>wave\<close>, which is no
  gesture key, is in the loaded mapping.
\<close>

theorem load_gesture_config_keeps_unknown_counterexample:
  "''wave'' \<notin> set (map fst DEFAULT_GESTURE_ACTIONS)
   \<and> load_gesture_config (Holds (PDict [(''wave'', PStr ''translate'')])) init_store
       = Inr (init_store\<lparr>objects :=
                [PDict ((''wave'', PStr ''translate'') # DEFAULT_GESTURE_ACTIONS)]\<rparr>, Obj 0)
   \<and> map_of ((''wave'', PStr ''translate'') # DEFAULT_GESTURE_ACTIONS) ''wave''
       = Some (PStr ''translate'')"
  by (simp add: load_gesture_config_def try_load_def json_load_def sum_bind_def alloc_def
      init_store_def DEFAULT_GESTURE_ACTIONS_def deref_def setitem_at_def)

text \<open>
  Claim C7, amended: for every persisted JSON object the loader returns a new
  dictionary that maps every persisted key, in or outside the gesture set, to its
  persisted value, and every default key absent from the file to its default action;
  its keys are the default keys together with the persisted keys.
\<close>

theorem load_gesture_config_merge:
  "\<exists>d'. load_gesture_config (Holds (PDict d)) st =
          Inr (st\<lparr>objects := objects st @ [PDict d']\<rparr>, Obj (length (objects st)))
        \<and> map_of d' = map_of (default_gesture_actions st) ++ map_of d
        \<and> set (map fst d') = set (map fst (default_gesture_actions st)) \<union> set (map fst d)"
  by (rule load_dict)

theorem load_gesture_config_merge_witness:
  "\<exists>d'. load_gesture_config (Holds (PDict [(''fist'', PStr ''repeat''), (''wave'', PStr ''stop'')]))
            init_store
          = Inr (init_store\<lparr>objects := [PDict d']\<rparr>, Obj 0)
        \<and> map_of d' ''fist'' = Some (PStr ''repeat'')
        \<and> map_of d' ''wave'' = Some (PStr ''stop'')
        \<and> map_of d' ''peace'' = Some (PStr ''repeat'')"
proof -
  from load_gesture_config_merge [of "[(''fist'', PStr ''repeat''), (''wave'', PStr ''stop'')]" init_store]
  obtain d' where l: "load_gesture_config (Holds (PDict [(''fist'', PStr ''repeat''), (''wave'', PStr ''stop'')]))
            init_store = Inr (init_store\<lparr>objects := objects init_store @ [PDict d']\<rparr>, Obj (length (objects init_store)))"
    and m: "map_of d' = map_of (default_gesture_actions init_store)
               ++ map_of [(''fist'', PStr ''repeat''), (''wave'', PStr ''stop'')]"
    by blast
  from l have "load_gesture_config (Holds (PDict [(''fist'', PStr ''repeat''), (''wave'', PStr ''stop'')]))
            init_store = Inr (init_store\<lparr>objects := [PDict d']\<rparr>, Obj 0)"
    by (simp add: init_store_def)
  moreover from m have "map_of d' ''fist'' = Some (PStr ''repeat'')"
    "map_of d' ''wave'' = Some (PStr ''stop'')" "map_of d' ''peace'' = Some (PStr ''repeat'')"
    by (simp_all add: init_store_def DEFAULT_GESTURE_ACTIONS_def map_add_def)
  ultimately show ?thesis by blast
qed

text \<open>
  Claim C10: \<^verbatim>\<open>load_gesture_config\<close> never raises. Whatever the file holds, it
  returns a newly allocated object (so never \<^verbatim>\<open>DEFAULT_GESTURE_ACTIONS\<close> itself) and
  leaves \<^verbatim>\<open>DEFAULT_GESTURE_ACTIONS\<close> and every object already in the store as they
  were; and when the file is absent, unreadable or not JSON, the new object is a copy of
  the default mapping.
\<close>

theorem load_gesture_config_never_raises:
  "(\<exists>st' a. load_gesture_config cfile st = Inr (st', Obj a)
      \<and> a = length (objects st)
      \<and> default_gesture_actions st' = default_gesture_actions st
      \<and> take a (objects st') = objects st)
   \<and> (cfile \<in> {Absent, Unreadable, Malformed} \<longrightarrow>
        load_gesture_config cfile st =
          Inr (st\<lparr>objects := objects st @ [PDict (default_gesture_actions st)]\<rparr>,
               Obj (length (objects st))))"
  using load_fresh [of cfile st] load_absent_like [of cfile st] by blast

theorem load_gesture_config_never_raises_witness:
  "load_gesture_config Absent init_store
     = Inr (init_store\<lparr>objects := [PDict DEFAULT_GESTURE_ACTIONS]\<rparr>, Obj 0)
   \<and> load_gesture_config Unreadable init_store
     = Inr (init_store\<lparr>objects := [PDict DEFAULT_GESTURE_ACTIONS]\<rparr>, Obj 0)
   \<and> load_gesture_config Malformed loaded_store
     = Inr (init_store\<lparr>objects := [PDict DEFAULT_GESTURE_ACTIONS, PDict DEFAULT_GESTURE_ACTIONS]\<rparr>, Obj 1)
   \<and> (\<exists>r. load_gesture_config (Holds (PInt 5)) init_store = Inr r)"
  using load_gesture_config_never_raises [of Absent init_store]
    load_gesture_config_never_raises [of Unreadable init_store]
    load_gesture_config_never_raises [of Malformed loaded_store]
    load_gesture_config_never_raises [of "Holds (PInt 5)" init_store]
  by (auto simp: init_store_def loaded_store_def)

subsection \<open>The demux loop\<close>

lemma bytes_find_empty_sub: "bytes_find xs [] = Some 0"
  by (cases xs) simp_all

lemma take_eq_length: "take (length sub) xs = sub \<Longrightarrow> length sub \<le> length xs"
proof -
  assume "take (length sub) xs = sub"
  then have "length (take (length sub) xs) = length sub" by simp
  then show ?thesis by simp
qed

lemma take_append_le: "n \<le> length xs \<Longrightarrow> take n (xs @ ys) = take n xs"
  by simp

lemma bytes_find_Some_bound:
  "bytes_find xs sub = Some i \<Longrightarrow> i + length sub \<le> length xs"
proof (induction xs arbitrary: i)
  case Nil
  then show ?case by (simp split: if_splits)
next
  case (Cons x xs)
  show ?case
  proof (cases "take (length sub) (x # xs) = sub")
    case True
    with Cons.prems have "i = 0" by simp
    moreover from True have "length sub \<le> length (x # xs)"
      by (rule take_eq_length)
    ultimately show ?thesis by simp
  next
    case False
    with Cons.prems obtain j where j: "bytes_find xs sub = Some j" "i = Suc j" by auto
    from Cons.IH [OF j(1)] j(2) show ?thesis by simp
  qed
qed

lemma bytes_find_append:
  "bytes_find xs sub = Some i \<Longrightarrow> bytes_find (xs @ ys) sub = Some i"
proof (induction xs arbitrary: i)
  case Nil
  then show ?case by (simp add: bytes_find_empty_sub split: if_splits)
next
  case (Cons x xs)
  show ?case
  proof (cases "take (length sub) (x # xs) = sub")
    case True
    then have "length sub \<le> length (x # xs)" by (rule take_eq_length)
    then have "take (length sub) ((x # xs) @ ys) = take (length sub) (x # xs)"
      by (rule take_append_le)
    with True have "take (length sub) ((x # xs) @ ys) = sub" by simp
    with True Cons.prems show ?thesis by simp
  next
    case False
    with Cons.prems obtain j where j: "bytes_find xs sub = Some j" "i = Suc j" by auto
    from bytes_find_Some_bound [OF j(1)] have "length sub \<le> length (x # xs)" by simp
    then have "take (length sub) ((x # xs) @ ys) = take (length sub) (x # xs)"
      by (rule take_append_le)
    with False have "take (length sub) ((x # xs) @ ys) \<noteq> sub" by simp
    with Cons.IH [OF j(1)] j(2) show ?thesis by simp
  qed
qed

lemma bytes_find_append_None:
  "bytes_find (xs @ ys) sub = None \<Longrightarrow> bytes_find xs sub = None"
proof (cases "bytes_find xs sub")
  case None
  then show ?thesis .
next
  case (Some i)
  assume "bytes_find (xs @ ys) sub = None"
  with bytes_find_append [OF Some, of ys] show ?thesis by simp
qed

lemma jpeg_delimited_length:
  assumes "jpeg_delimited img"
  shows "4 \<le> length img"
proof -
  from assms have t: "take 2 img = [0xFF, 0xD8]" by (simp add: jpeg_delimited_def SOI_def)
  then obtain rest where img: "img = 0xFF # 0xD8 # rest"
    by (cases img; cases "tl img") auto
  from assms have "bytes_find img EOI = Some (length img - 2)" by (simp add: jpeg_delimited_def)
  with img obtain k where "bytes_find rest EOI = Some k"
    by (auto simp: EOI_def)
  from bytes_find_Some_bound [OF this] have "2 \<le> length rest" by (simp add: EOI_def)
  with img show ?thesis by simp
qed

lemma jpeg_delimited_prefix_no_EOI:
  assumes "jpeg_delimited img" and "img = buf @ rest" and "length buf < length img"
  shows "bytes_find buf EOI = None"
proof (cases "bytes_find buf EOI")
  case None
  then show ?thesis .
next
  case (Some j)
  from bytes_find_append [OF Some, of rest] assms(1,2)
  have "j = length img - 2" by (simp add: jpeg_delimited_def)
  moreover from bytes_find_Some_bound [OF Some] have "j + 2 \<le> length buf" by (simp add: EOI_def)
  moreover from jpeg_delimited_length [OF assms(1)] have "4 \<le> length img" .
  ultimately show ?thesis using assms(3) by simp
qed

lemma extract_jpg_partial:
  assumes "jpeg_delimited img" and "img = buf @ rest" and "length buf < length img"
  shows "extract_jpg buf = None"
  using jpeg_delimited_prefix_no_EOI [OF assms]
  by (simp add: extract_jpg_def split: option.splits)

lemma extract_jpg_complete:
  assumes "jpeg_delimited img"
  shows "extract_jpg (img @ tail) = Some (img, tail)"
proof -
  from jpeg_delimited_length [OF assms] have l: "4 \<le> length img" .
  from assms have "take 2 (img @ tail) = SOI" using l by (simp add: jpeg_delimited_def)
  then have a: "bytes_find (img @ tail) SOI = Some 0"
    using l by (cases "img @ tail") (simp_all add: SOI_def)
  from assms have "bytes_find img EOI = Some (length img - 2)" by (simp add: jpeg_delimited_def)
  then have b: "bytes_find (img @ tail) EOI = Some (length img - 2)" by (rule bytes_find_append)
  from l have "length img - 2 + 2 = length img" by simp
  with a b show ?thesis by (simp add: extract_jpg_def)
qed

lemma extract_jpg_Nil: "extract_jpg [] = None"
  by (simp add: extract_jpg_def SOI_def)


lemma loop_body_no_image:
  "extract_jpg (buf @ chunk t) = None \<Longrightarrow>
     loop_body imdecode self buf t = Inr (self, buf @ chunk t, \<lparr>frame = None, started = None\<rparr>)"
  by (simp add: loop_body_def)

lemma loop_body_image:
  assumes "extract_jpg (buf @ chunk t) = Some (jpg, rest)"
    and "imdecode jpg = Some f" and "complete_poses t"
  shows "\<exists>self' th. loop_body imdecode self buf t = Inr (self', rest, \<lparr>frame = Some f, started = th\<rparr>)
           \<and> is_running self' = is_running self"
proof -
  from assms(3) obtain gesture where
    g: "(case multi_hand_landmarks t of [] \<Rightarrow> Inr ''None''
         | hand_landmarks # _ \<Rightarrow> detect_gesture hand_landmarks) = Inr gesture"
    by (auto simp: complete_poses_def detect_gesture_full split: list.splits)
  obtain self' th where gg: "gesture_gate self gesture (clock t) = (self', th)"
    by (cases "gesture_gate self gesture (clock t)")
  from gesture_gate_cases [OF gg] have "is_running self' = is_running self" by simp
  moreover from assms(1,2) g gg
  have "loop_body imdecode self buf t
          = Inr (self', rest, \<lparr>frame = Some f, started = map_option (\<lambda>g. (g, clock t)) th\<rparr>)"
    by (simp add: loop_body_def sum_bind_def)
  ultimately show ?thesis by blast
qed

lemma frames_Nil: "frames [] = []"
  by (simp add: frames_def List.map_filter_simps)

lemma frames_Cons:
  "frames (out # outs) = (case frame out of None \<Rightarrow> frames outs | Some f \<Rightarrow> f # frames outs)"
  by (simp add: frames_def List.map_filter_simps split: option.splits)

lemma stream_loop_length:
  "stream_loop imdecode self buf ts = (self', buf', outs) \<Longrightarrow> length outs \<le> length ts"
proof (induction ts arbitrary: self buf outs)
  case Nil
  then show ?case by simp
next
  case (Cons t ts)
  then show ?case
    by (fastforce split: if_splits sum.splits prod.splits)
qed

lemma frames_length: "length (frames outs) \<le> length outs"
  by (induction outs) (auto simp: frames_Nil frames_Cons split: option.splits)

lemma extract_jpg_no_marker:
  assumes "bytes_find (xs @ ys) SOI = None \<or> bytes_find (xs @ ys) EOI = None"
  shows "extract_jpg xs = None"
proof -
  from assms have "bytes_find xs SOI = None \<or> bytes_find xs EOI = None"
    by (auto dest: bytes_find_append_None)
  then show ?thesis by (auto simp: extract_jpg_def split: option.splits)
qed

lemma stream_loop_no_marker:
  assumes "is_running self"
    and "bytes_find (buf @ concat (map chunk ts)) SOI = None
         \<or> bytes_find (buf @ concat (map chunk ts)) EOI = None"
  shows "stream_loop imdecode self buf ts
           = (self, buf @ concat (map chunk ts),
              map (\<lambda>t. \<lparr>frame = None, started = None\<rparr>) ts)"
  using assms
proof (induction ts arbitrary: buf)
  case Nil
  then show ?case by simp
next
  case (Cons t ts)
  from Cons.prems(2)
  have n: "bytes_find ((buf @ chunk t) @ concat (map chunk ts)) SOI = None
           \<or> bytes_find ((buf @ chunk t) @ concat (map chunk ts)) EOI = None"
    by simp
  then have "extract_jpg (buf @ chunk t) = None" by (rule extract_jpg_no_marker)
  then have b: "loop_body imdecode self buf t
      = Inr (self, buf @ chunk t, \<lparr>frame = None, started = None\<rparr>)"
    by (rule loop_body_no_image)
  from Cons.IH [OF Cons.prems(1) n] b Cons.prems(1) show ?case by simp
qed

lemma append_eq_prefix:
  assumes "xs @ ys = r @ zs" and "length xs \<le> length r"
  shows "r = xs @ drop (length xs) r"
proof -
  from assms(1) have "take (length xs) (xs @ ys) = take (length xs) (r @ zs)" by simp
  with assms(2) have "xs = take (length xs) r" by simp
  then have "xs @ drop (length xs) r = take (length xs) r @ drop (length xs) r" by simp
  then show ?thesis by simp
qed

lemma append_eq_suffix:
  assumes "xs @ ys = r @ zs" and "length r \<le> length xs"
  shows "xs = r @ drop (length r) xs" and "drop (length r) xs @ ys = zs"
proof -
  from assms(1) [symmetric] assms(2) show "xs = r @ drop (length r) xs"
    by (rule append_eq_prefix)
  from assms(1) have "drop (length r) (xs @ ys) = drop (length r) (r @ zs)" by simp
  with assms(2) show "drop (length r) xs @ ys = zs" by simp
qed

lemma stream_loop_aligned:
  assumes "is_running self"
    and "\<forall>img\<in>set imgs. jpeg_delimited img \<and> imdecode img \<noteq> None"
    and "\<forall>t\<in>set ts. complete_poses t"
    and "buf @ concat (map chunk ts) = concat imgs"
    and "imgs \<noteq> [] \<longrightarrow> length buf < length (hd imgs)"
    and "\<forall>t\<in>set ts. \<forall>img\<in>set imgs. length (chunk t) \<le> length img"
  shows "\<exists>self' outs. stream_loop imdecode self buf ts = (self', [], outs)
           \<and> frames outs = map (\<lambda>img. the (imdecode img)) imgs"
  using assms
proof (induction ts arbitrary: self buf imgs)
  case Nil
  have "imgs = []"
  proof (rule ccontr)
    assume "imgs \<noteq> []"
    then obtain r rs where "imgs = r # rs" by (cases imgs) auto
    with Nil.prems(4,5) have "buf = r @ concat rs" "length buf < length r" by simp_all
    then show False by simp
  qed
  with Nil.prems(4) show ?case by (simp add: frames_Nil)
next
  case (Cons t ts)
  let ?new = "buf @ chunk t"
  from Cons.prems(3) have poses: "complete_poses t" "\<forall>t\<in>set ts. complete_poses t" by simp_all
  show ?case
  proof (cases imgs)
    case Nil
    with Cons.prems(4) have e: "buf = []" "chunk t = []" "concat (map chunk ts) = []" by simp_all
    from e have "extract_jpg (buf @ chunk t) = None" by (simp add: extract_jpg_Nil)
    then have "loop_body imdecode self buf t
        = Inr (self, buf @ chunk t, \<lparr>frame = None, started = None\<rparr>)"
      by (rule loop_body_no_image)
    with e have b: "loop_body imdecode self buf t = Inr (self, [], \<lparr>frame = None, started = None\<rparr>)"
      by simp
    have "\<exists>self' outs. stream_loop imdecode self [] ts = (self', [], outs)
           \<and> frames outs = map (\<lambda>img. the (imdecode img)) []"
      using Cons.prems(1) poses(2) e(3) by (intro Cons.IH) simp_all
    then obtain self' outs where r: "stream_loop imdecode self [] ts = (self', [], outs)"
      "frames outs = []" by auto
    with b Cons.prems(1) Nil show ?thesis by (simp add: frames_Cons)
  next
    case (Cons r rs)
    from Cons.prems(2) Cons have rd: "jpeg_delimited r" and "imdecode r \<noteq> None" by simp_all
    then obtain f where f: "imdecode r = Some f" by auto
    from Cons.prems(4) Cons have cover: "?new @ concat (map chunk ts) = r @ concat rs" by simp
    from Cons.prems(5) Cons have part: "length buf < length r" by simp
    show ?thesis
    proof (cases "length ?new < length r")
      case True
      then have "length ?new \<le> length r" by simp
      from append_eq_prefix [OF cover this] have "r = ?new @ drop (length ?new) r" .
      from extract_jpg_partial [OF rd this True] have "extract_jpg ?new = None" .
      then have b: "loop_body imdecode self buf t
          = Inr (self, ?new, \<lparr>frame = None, started = None\<rparr>)"
        by (rule loop_body_no_image)
      have "\<exists>self' outs. stream_loop imdecode self ?new ts = (self', [], outs)
             \<and> frames outs = map (\<lambda>img. the (imdecode img)) imgs"
        using Cons.prems(1,2,6) poses(2) cover True Cons by (intro Cons.IH) simp_all
      then obtain self' outs where "stream_loop imdecode self ?new ts = (self', [], outs)"
        "frames outs = map (\<lambda>img. the (imdecode img)) imgs" by auto
      with b Cons.prems(1) show ?thesis by (simp add: frames_Cons)
    next
      case False
      let ?tail = "drop (length r) ?new"
      from False have le: "length r \<le> length ?new" by simp
      from append_eq_suffix [OF cover le]
      have n: "?new = r @ ?tail" and c2: "?tail @ concat (map chunk ts) = concat rs" .
      from extract_jpg_complete [OF rd, of ?tail] n
      have "extract_jpg ?new = Some (r, ?tail)" by simp
      from loop_body_image [where imdecode = imdecode and self = self, OF this f poses(1)] obtain self1 th where
        b: "loop_body imdecode self buf t = Inr (self1, ?tail, \<lparr>frame = Some f, started = th\<rparr>)"
        and run1: "is_running self1 = is_running self" by blast
      from part le have tl: "length ?tail < length (chunk t)" by simp
      have small: "rs \<noteq> [] \<longrightarrow> length ?tail < length (hd rs)"
      proof
        assume "rs \<noteq> []"
        then have "hd rs \<in> set imgs" using Cons by simp
        with Cons.prems(6) have "length (chunk t) \<le> length (hd rs)" by simp
        with tl show "length ?tail < length (hd rs)" by simp
      qed
      have "\<exists>self' outs. stream_loop imdecode self1 ?tail ts = (self', [], outs)
             \<and> frames outs = map (\<lambda>img. the (imdecode img)) rs"
        using Cons.prems(1,2,6) run1 poses(2) c2 small Cons by (intro Cons.IH) simp_all
      then obtain self' outs where "stream_loop imdecode self1 ?tail ts = (self', [], outs)"
        "frames outs = map (\<lambda>img. the (imdecode img)) rs" by auto
      with b f Cons.prems(1) Cons show ?thesis by (simp add: frames_Cons)
    qed
  qed
qed


lemma frames_per_chunk:
  "length (frames (snd (snd (process_esp32_stream imdecode self ts)))) \<le> length ts"
proof -
  obtain self' buf' outs where r: "stream_loop imdecode self [] ts = (self', buf', outs)"
    by (cases "stream_loop imdecode self [] ts") auto
  from stream_loop_length [OF r] frames_length [of outs] r show ?thesis
    by (simp add: process_esp32_stream_def)
qed

lemma img_a_delimited: "jpeg_delimited img_a"
  by (simp add: jpeg_delimited_def img_a_def SOI_def EOI_def)

lemma img_b_delimited: "jpeg_delimited img_b"
  by (simp add: jpeg_delimited_def img_b_def SOI_def EOI_def)

lemma pose_tick_complete: "complete_poses (pose_tick c now)"
  by (simp add: complete_poses_def pose_tick_def fist_pose_def)

text \<open>
  Claim C5 as stated fails: when one chunk holds two whole images, the iteration
  extracts the first and leaves the second in the buffer; the stream ends, and one
  frame has been emitted for two images. The loop looks for one image per chunk.
\<close>

theorem demux_one_frame_per_chunk_counterexample:
  "jpeg_delimited img_a \<and> jpeg_delimited img_b
   \<and> process_esp32_stream Some running_controller [pose_tick (img_a @ img_b) 2]
       = (running_controller\<lparr>last_gesture_time := 2, current_gesture := ''fist''\<rparr>, img_b,
          [\<lparr>frame = Some img_a, started = Some (''fist'', 2)\<rparr>])
   \<and> frames [\<lparr>frame = Some img_a, started = Some (''fist'', 2::real)\<rparr>] = [img_a]"
proof -
  have e: "extract_jpg (img_a @ img_b) = Some (img_a, img_b)"
    using img_a_delimited by (rule extract_jpg_complete)
  have "loop_body Some running_controller [] (pose_tick (img_a @ img_b) 2)
      = Inr (running_controller\<lparr>last_gesture_time := 2, current_gesture := ''fist''\<rparr>, img_b,
          \<lparr>frame = Some img_a, started = Some (''fist'', 2)\<rparr>)"
    by (simp add: loop_body_def pose_tick_def e detect_fist sum_bind_def gesture_gate_def
        running_controller_def init_controller_def)
  then have "process_esp32_stream Some running_controller [pose_tick (img_a @ img_b) 2]
       = (running_controller\<lparr>last_gesture_time := 2, current_gesture := ''fist''\<rparr>, img_b,
          [\<lparr>frame = Some img_a, started = Some (''fist'', 2)\<rparr>])"
    by (simp add: process_esp32_stream_def running_controller_def)
  with img_a_delimited img_b_delimited show ?thesis
    by (simp add: frames_def List.map_filter_simps)
qed

text \<open>
  Claim C5, amended: the loop emits at most one frame per chunk received. When the
  stream is the concatenation of \<open>N\<close> images, each delimited (no end marker before its
  last two bytes) and decodable, and no chunk is longer than any of the images, then,
  while \<^verbatim>\<open>is_running\<close> holds and the poses are complete, it emits exactly \<open>N\<close>
  frames, the decoded images in their order, and ends with an empty buffer.
\<close>

theorem demux_emits_all_frames:
  "length (frames (snd (snd (process_esp32_stream imdecode self ts)))) \<le> length ts
   \<and> (is_running self
        \<and> (\<forall>img\<in>set imgs. jpeg_delimited img \<and> imdecode img \<noteq> None)
        \<and> (\<forall>t\<in>set ts. complete_poses t)
        \<and> concat (map chunk ts) = concat imgs
        \<and> (\<forall>t\<in>set ts. \<forall>img\<in>set imgs. length (chunk t) \<le> length img)
      \<longrightarrow> (\<exists>self' outs. process_esp32_stream imdecode self ts = (self', [], outs)
             \<and> frames outs = map (\<lambda>img. the (imdecode img)) imgs
             \<and> length (frames outs) = length imgs))"
proof (intro conjI impI)
  show "length (frames (snd (snd (process_esp32_stream imdecode self ts)))) \<le> length ts"
    by (rule frames_per_chunk)
next
  assume h: "is_running self
        \<and> (\<forall>img\<in>set imgs. jpeg_delimited img \<and> imdecode img \<noteq> None)
        \<and> (\<forall>t\<in>set ts. complete_poses t)
        \<and> concat (map chunk ts) = concat imgs
        \<and> (\<forall>t\<in>set ts. \<forall>img\<in>set imgs. length (chunk t) \<le> length img)"
  have p: "imgs \<noteq> [] \<longrightarrow> length ([] :: byte list) < length (hd imgs)"
  proof
    assume "imgs \<noteq> []"
    then have "hd imgs \<in> set imgs" by simp
    with h have "jpeg_delimited (hd imgs)" by blast
    from jpeg_delimited_length [OF this] show "length ([] :: byte list) < length (hd imgs)"
      by (cases "hd imgs") simp_all
  qed
  from h have c: "[] @ concat (map chunk ts) = concat imgs" by simp
  from h have "is_running self" "\<forall>img\<in>set imgs. jpeg_delimited img \<and> imdecode img \<noteq> None"
    "\<forall>t\<in>set ts. complete_poses t" "\<forall>t\<in>set ts. \<forall>img\<in>set imgs. length (chunk t) \<le> length img"
    by blast+
  from stream_loop_aligned [OF this(1,2,3) c p this(4)]
  obtain self' outs where "stream_loop imdecode self [] ts = (self', [], outs)"
    "frames outs = map (\<lambda>img. the (imdecode img)) imgs" by blast
  then show "\<exists>self' outs. process_esp32_stream imdecode self ts = (self', [], outs)
             \<and> frames outs = map (\<lambda>img. the (imdecode img)) imgs
             \<and> length (frames outs) = length imgs"
    by (simp add: process_esp32_stream_def)
qed

theorem demux_emits_all_frames_witness:
  "is_running running_controller \<and> jpeg_delimited img_a \<and> jpeg_delimited img_b
   \<and> concat (map chunk [pose_tick [0xFF, 0xD8, 0x00] 2, pose_tick [0xFF, 0xD9, 0xFF] 3,
                          pose_tick [0xD8, 0x01, 0xFF, 0xD9] 4]) = concat [img_a, img_b]
   \<and> (\<exists>self' outs.
        process_esp32_stream Some running_controller
          [pose_tick [0xFF, 0xD8, 0x00] 2, pose_tick [0xFF, 0xD9, 0xFF] 3,
           pose_tick [0xD8, 0x01, 0xFF, 0xD9] 4] = (self', [], outs)
        \<and> frames outs = [img_a, img_b])"
proof -
  let ?ts = "[pose_tick [0xFF, 0xD8, 0x00] 2, pose_tick [0xFF, 0xD9, 0xFF] 3,
              pose_tick [0xD8, 0x01, 0xFF, 0xD9] 4]"
  have r: "is_running running_controller"
    by (simp add: running_controller_def init_controller_def)
  have i: "\<forall>img\<in>set [img_a, img_b]. jpeg_delimited img \<and> Some img \<noteq> None"
    by (simp add: img_a_delimited img_b_delimited)
  have p: "\<forall>t\<in>set ?ts. complete_poses t"
    by (simp add: pose_tick_complete)
  have c: "concat (map chunk ?ts) = concat [img_a, img_b]"
    by (simp add: pose_tick_def img_a_def img_b_def)
  have s: "\<forall>t\<in>set ?ts. \<forall>img\<in>set [img_a, img_b]. length (chunk t) \<le> length img"
    by (simp add: pose_tick_def img_a_def img_b_def)
  from demux_emits_all_frames [of Some running_controller ?ts "[img_a, img_b]"] r i p c s
  obtain self' outs where o: "process_esp32_stream Some running_controller ?ts = (self', [], outs)"
    and "frames outs = map (\<lambda>img. the (Some img)) [img_a, img_b]"
    by blast
  then have "frames outs = [img_a, img_b]" by simp
  with o r c img_a_delimited img_b_delimited show ?thesis by blast
qed

lemma bytes_find_zeros: "bytes_find (replicate n (0x00 :: byte)) EOI = None"
  by (induction n) (simp_all add: EOI_def)

lemma concat_zero_ticks: "concat (map chunk (replicate n zero_tick)) = replicate n 0x00"
  by (induction n) (simp_all add: zero_tick_def)

text \<open>
  Claim C8 as stated fails: no bound \<open>M\<close> exists. On a stream of chunks of one zero
  byte the accumulator holds every byte received, so after \<open>M + 2\<close> chunks it is
  longer than \<open>M\<close> plus one chunk.
\<close>

theorem accumulator_unbounded_counterexample:
  "\<not> (\<exists>M. \<forall>n. length (fst (snd (process_esp32_stream Some running_controller
                                      (replicate n zero_tick))))
                 \<le> M + length (chunk zero_tick))"
proof
  assume "\<exists>M. \<forall>n. length (fst (snd (process_esp32_stream Some running_controller
                                      (replicate n zero_tick))))
                 \<le> M + length (chunk zero_tick)"
  then obtain M where M: "\<And>n. length (fst (snd (process_esp32_stream Some running_controller
                                      (replicate n zero_tick))))
                 \<le> M + length (chunk zero_tick)" by blast
  have r: "is_running running_controller"
    by (simp add: running_controller_def init_controller_def)
  have "bytes_find ([] @ concat (map chunk (replicate (M + 2) zero_tick))) EOI = None"
    by (simp only: append_Nil concat_zero_ticks bytes_find_zeros)
  then have "bytes_find ([] @ concat (map chunk (replicate (M + 2) zero_tick))) SOI = None
             \<or> bytes_find ([] @ concat (map chunk (replicate (M + 2) zero_tick))) EOI = None" ..
  from stream_loop_no_marker [OF r this, of Some]
  have "length (fst (snd (process_esp32_stream Some running_controller
                            (replicate (M + 2) zero_tick)))) = M + 2"
    by (simp only: process_esp32_stream_def fst_conv snd_conv append_Nil concat_zero_ticks
        length_replicate)
  with M [of "M + 2"] show False by (simp add: zero_tick_def)
qed

text \<open>
  Claim C8, amended: the accumulator has no size cap. While the bytes received
  contain no start marker or no end marker, the loop emits nothing, reports nothing
  and never resets: the buffer is the concatenation of all chunks received.
\<close>

theorem accumulator_uncapped:
  assumes "is_running self"
    and "bytes_find (concat (map chunk ts)) SOI = None
         \<or> bytes_find (concat (map chunk ts)) EOI = None"
  shows "process_esp32_stream imdecode self ts
           = (self, concat (map chunk ts), map (\<lambda>t. \<lparr>frame = None, started = None\<rparr>) ts)"
proof -
  from assms(2) have "bytes_find ([] @ concat (map chunk ts)) SOI = None
      \<or> bytes_find ([] @ concat (map chunk ts)) EOI = None" by simp
  from stream_loop_no_marker [OF assms(1) this] show ?thesis
    by (simp add: process_esp32_stream_def)
qed

theorem accumulator_uncapped_witness:
  "is_running running_controller
   \<and> bytes_find (concat (map chunk [zero_tick, zero_tick, zero_tick])) EOI = None
   \<and> process_esp32_stream Some running_controller [zero_tick, zero_tick, zero_tick]
       = (running_controller, [0x00, 0x00, 0x00],
          [\<lparr>frame = None, started = None\<rparr>, \<lparr>frame = None, started = None\<rparr>,
           \<lparr>frame = None, started = None\<rparr>])"
proof -
  have r: "is_running running_controller"
    by (simp add: running_controller_def init_controller_def)
  have n: "bytes_find (concat (map chunk [zero_tick, zero_tick, zero_tick])) EOI = None"
    by (simp add: zero_tick_def EOI_def)
  then have "bytes_find (concat (map chunk [zero_tick, zero_tick, zero_tick])) SOI = None
      \<or> bytes_find (concat (map chunk [zero_tick, zero_tick, zero_tick])) EOI = None" ..
  from accumulator_uncapped [OF r this, of Some] r n show ?thesis
    by (simp add: zero_tick_def)
qed

subsection \<open>Stopping the stream\<close>

lemma step_quiet:
  assumes "\<not> is_running (p_ctl s)" and "\<not> in_body s"
  shows "\<not> is_running (p_ctl (pipeline_step imdecode s e))
         \<and> \<not> in_body (pipeline_step imdecode s e)
         \<and> p_started (pipeline_step imdecode s e) = p_started s"
  using assms by (cases e; cases "p_pc s") (auto simp: in_body_def stop_stream_def)

lemma run_quiet:
  assumes "\<not> is_running (p_ctl s)" and "\<not> in_body s"
  shows "p_started (pipeline_run imdecode s es) = p_started s"
  using assms
proof (induction es arbitrary: s)
  case Nil
  then show ?case by simp
next
  case (Cons e es)
  from step_quiet [OF Cons.prems, of imdecode e] Cons.IH [of "pipeline_step imdecode s e"]
  show ?case by simp
qed

lemma step_stopped:
  assumes "\<not> is_running (p_ctl s)"
  shows "\<not> is_running (p_ctl (pipeline_step imdecode s e))
         \<and> ((in_body (pipeline_step imdecode s e)
              \<and> p_started (pipeline_step imdecode s e) = p_started s)
             \<or> (\<not> in_body (pipeline_step imdecode s e)
                 \<and> (\<exists>extra. p_started (pipeline_step imdecode s e) = p_started s @ extra
                             \<and> length extra \<le> 1)))"
proof (cases "in_body s")
  case False
  from step_quiet [OF assms False, of imdecode e] show ?thesis by simp
next
  case True
  then obtain t where t: "p_pc s = InBody t" by (auto simp: in_body_def split: loop_pc.splits)
  show ?thesis
  proof (cases e)
    case Body
    show ?thesis
    proof (cases "loop_body imdecode (p_ctl s) (p_buf s) t")
      case (Inl err)
      with t Body assms show ?thesis by (simp add: in_body_def)
    next
      case (Inr r)
      obtain self' buf' out where r: "r = (self', buf', out)" by (cases r) auto
      from Inr r have "loop_body imdecode (p_ctl s) (p_buf s) t = Inr (self', buf', out)" by simp
      from loop_body_cases [OF this] assms have "\<not> is_running self'" by simp
      with t Body Inr r show ?thesis by (simp add: in_body_def split: option.splits)
    qed
  qed (use t assms in \<open>simp_all add: in_body_def stop_stream_def\<close>)
qed

lemma run_stopped:
  assumes "\<not> is_running (p_ctl s)"
  shows "\<exists>extra. p_started (pipeline_run imdecode s es) = p_started s @ extra \<and> length extra \<le> 1"
  using assms
proof (induction es arbitrary: s)
  case Nil
  then show ?case by simp
next
  case (Cons e es)
  let ?s = "pipeline_step imdecode s e"
  from step_stopped [OF Cons.prems, of imdecode e]
  have st: "\<not> is_running (p_ctl ?s)"
    and d: "(in_body ?s \<and> p_started ?s = p_started s)
            \<or> (\<not> in_body ?s \<and> (\<exists>extra. p_started ?s = p_started s @ extra \<and> length extra \<le> 1))"
    by blast+
  from d show ?case
  proof
    assume "in_body ?s \<and> p_started ?s = p_started s"
    with Cons.IH [OF st] show ?thesis by simp
  next
    assume "\<not> in_body ?s \<and> (\<exists>extra. p_started ?s = p_started s @ extra \<and> length extra \<le> 1)"
    with run_quiet [OF st, of imdecode es] show ?thesis by auto
  qed
qed


lemma run_ended:
  "p_pc s = Ended \<Longrightarrow> StopStream \<notin> set es \<Longrightarrow> pipeline_run imdecode s es = s"
proof (induction es arbitrary: s)
  case Nil
  then show ?case by simp
next
  case (Cons e es)
  from Cons.prems have "pipeline_step imdecode s e = s" by (cases e) simp_all
  with Cons show ?case by simp
qed

text \<open>
  Run alone, the interleaved pipeline does what the loop function does: the same
  controller, buffer and thread starts.
\<close>

lemma sequential_no_stop: "StopStream \<notin> set (sequential ts)"
  by (induction ts) (auto simp: sequential_def)

lemma pipeline_run_sequential:
  "stream_loop imdecode self buf ts = (self', buf', outs) \<Longrightarrow>
     pipeline_run imdecode \<lparr>p_ctl = self, p_buf = buf, p_pc = AtTop, p_started = acc\<rparr>
       (sequential ts)
     = \<lparr>p_ctl = self', p_buf = buf', p_pc = Ended,
        p_started = acc @ List.map_filter started outs\<rparr>"
proof (induction ts arbitrary: self buf acc outs self' buf')
  case Nil
  then show ?case by (simp add: sequential_def List.map_filter_simps)
next
  case (Cons t ts)
  have seq: "sequential (t # ts) = Fetch t # Body # sequential ts"
    by (simp add: sequential_def)
  let ?s = "\<lparr>p_ctl = self, p_buf = buf, p_pc = AtTop, p_started = acc\<rparr>"
  show ?case
  proof (cases "is_running self")
    case False
    with Cons.prems have r: "self' = self" "buf' = buf" "outs = []" by simp_all
    from False have "pipeline_step imdecode ?s (Fetch t) = ?s\<lparr>p_pc := Ended\<rparr>" by simp
    moreover have "pipeline_run imdecode (?s\<lparr>p_pc := Ended\<rparr>) (Body # sequential ts)
        = ?s\<lparr>p_pc := Ended\<rparr>"
      by (rule run_ended) (simp_all add: sequential_no_stop)
    ultimately show ?thesis unfolding seq r by (simp add: List.map_filter_simps)
  next
    case True
    then have f: "pipeline_step imdecode ?s (Fetch t) = ?s\<lparr>p_pc := InBody t\<rparr>" by simp
    show ?thesis
    proof (cases "loop_body imdecode self buf t")
      case (Inl e)
      with True Cons.prems have r: "self' = self" "buf' = buf" "outs = []" by simp_all
      from Inl have "pipeline_step imdecode (?s\<lparr>p_pc := InBody t\<rparr>) Body = ?s\<lparr>p_pc := Ended\<rparr>"
        by simp
      moreover have "pipeline_run imdecode (?s\<lparr>p_pc := Ended\<rparr>) (sequential ts)
          = ?s\<lparr>p_pc := Ended\<rparr>"
        by (rule run_ended) (simp_all add: sequential_no_stop)
      ultimately show ?thesis unfolding seq r using f by (simp add: List.map_filter_simps)
    next
      case (Inr r)
      obtain s1 b1 out where r: "r = (s1, b1, out)" by (cases r) auto
      obtain s2 b2 outs2 where rec: "stream_loop imdecode s1 b1 ts = (s2, b2, outs2)"
        by (cases "stream_loop imdecode s1 b1 ts") auto
      from Cons.prems True Inr r rec have res: "self' = s2" "buf' = b2" "outs = out # outs2"
        by simp_all
      let ?acc = "acc @ (case started out of None \<Rightarrow> [] | Some th \<Rightarrow> [th])"
      from Inr r have "pipeline_step imdecode (?s\<lparr>p_pc := InBody t\<rparr>) Body
          = \<lparr>p_ctl = s1, p_buf = b1, p_pc = AtTop, p_started = ?acc\<rparr>"
        by simp
      with f Cons.IH [OF rec, of ?acc] show ?thesis
        unfolding seq res by (simp add: List.map_filter_simps split: option.splits)
    qed
  qed
qed

text \<open>
  Claim C3 as stated fails: the ingestion thread has taken a chunk and passed the
  test of \<^verbatim>\<open>is_running\<close>; \<^verbatim>\<open>stop_stream\<close> runs and returns, with no action started
  so far; then the body runs and starts the action thread for a fist.
\<close>

theorem stop_stream_race_counterexample:
  "\<not> is_running (p_ctl (pipeline_run Some (start_pipeline running_controller)
                           [Fetch (pose_tick img_a 2), StopStream]))
   \<and> p_started (pipeline_run Some (start_pipeline running_controller)
                  [Fetch (pose_tick img_a 2), StopStream]) = []
   \<and> p_started (pipeline_run Some (start_pipeline running_controller)
                  [Fetch (pose_tick img_a 2), StopStream, Body]) = [(''fist'', 2)]"
proof -
  have e: "extract_jpg img_a = Some (img_a, [])"
    using extract_jpg_complete [OF img_a_delimited, of "[]"] by simp
  have "loop_body Some (stop_stream running_controller) [] (pose_tick img_a 2)
      = Inr (stop_stream running_controller\<lparr>last_gesture_time := 2, current_gesture := ''fist''\<rparr>, [],
          \<lparr>frame = Some img_a, started = Some (''fist'', 2)\<rparr>)"
    using e by (simp add: loop_body_def pose_tick_def detect_fist sum_bind_def gesture_gate_def
        running_controller_def init_controller_def stop_stream_def)
  then show ?thesis
    by (simp add: start_pipeline_def stop_stream_def running_controller_def init_controller_def)
qed

text \<open>
  Claim C3, amended: \<^verbatim>\<open>stop_stream\<close> clears \<^verbatim>\<open>is_running\<close> and returns at once.
  From then on, as long as the stream is not started again, the ingestion loop starts
  at most one more action thread, namely for a chunk whose test of the flag had passed
  before the stop, and none when the loop stood at the top of an iteration; and from
  the top of an iteration its next test of the flag ends the loop.
\<close>

theorem stop_stream_at_most_one_more:
  "\<not> is_running (p_ctl (pipeline_step imdecode s StopStream))
   \<and> (\<exists>extra. p_started (pipeline_run imdecode (pipeline_step imdecode s StopStream) es)
                 = p_started s @ extra
               \<and> length extra \<le> 1 \<and> (\<not> in_body s \<longrightarrow> extra = []))
   \<and> (p_pc s = AtTop \<longrightarrow>
        p_pc (pipeline_step imdecode (pipeline_step imdecode s StopStream) (Fetch t)) = Ended)"
proof -
  let ?s = "pipeline_step imdecode s StopStream"
  have st: "\<not> is_running (p_ctl ?s)" by (simp add: stop_stream_def)
  have ps: "p_started ?s = p_started s" by simp
  have ib: "in_body ?s = in_body s" by (simp add: in_body_def)
  from run_stopped [OF st, of imdecode es] obtain extra where
    x: "p_started (pipeline_run imdecode ?s es) = p_started s @ extra" "length extra \<le> 1"
    unfolding ps by blast
  have "\<not> in_body s \<longrightarrow> extra = []"
  proof
    assume "\<not> in_body s"
    with ib have "\<not> in_body ?s" by simp
    from run_quiet [OF st this, of imdecode es] x(1) ps show "extra = []" by simp
  qed
  moreover have "p_pc s = AtTop \<longrightarrow> p_pc (pipeline_step imdecode ?s (Fetch t)) = Ended"
    by (simp add: stop_stream_def)
  ultimately show ?thesis using st x by blast
qed

theorem stop_stream_at_most_one_more_witness:
  "p_started (pipeline_run Some
      (pipeline_step Some (start_pipeline running_controller) StopStream)
      [Fetch (pose_tick img_a 2), Body, Fetch (pose_tick img_b 4), Body]) = []
   \<and> p_pc (pipeline_step Some
             (pipeline_step Some (start_pipeline running_controller) StopStream)
             (Fetch (pose_tick img_a 2))) = Ended
   \<and> in_body (pipeline_step Some (start_pipeline running_controller) (Fetch (pose_tick img_a 2)))
   \<and> length (p_started (pipeline_run Some
        (pipeline_step Some
           (pipeline_step Some (start_pipeline running_controller) (Fetch (pose_tick img_a 2)))
           StopStream)
        [Body, Fetch (pose_tick img_b 4), Body])) \<le> 1"
proof -
  have a: "\<not> in_body (start_pipeline running_controller)"
    by (simp add: in_body_def start_pipeline_def)
  have b: "in_body (pipeline_step Some (start_pipeline running_controller) (Fetch (pose_tick img_a 2)))"
    by (simp add: in_body_def start_pipeline_def running_controller_def init_controller_def)
  have c: "p_started (start_pipeline running_controller) = []"
    "p_started (pipeline_step Some (start_pipeline running_controller) (Fetch (pose_tick img_a 2))) = []"
    by (simp_all add: start_pipeline_def running_controller_def init_controller_def)
  have d: "p_pc (start_pipeline running_controller) = AtTop"
    by (simp add: start_pipeline_def)
  from stop_stream_at_most_one_more [of Some "start_pipeline running_controller"
      "[Fetch (pose_tick img_a 2), Body, Fetch (pose_tick img_b 4), Body]" "pose_tick img_a 2"] a c(1) d
  have 1: "p_started (pipeline_run Some
      (pipeline_step Some (start_pipeline running_controller) StopStream)
      [Fetch (pose_tick img_a 2), Body, Fetch (pose_tick img_b 4), Body]) = []"
    and 3: "p_pc (pipeline_step Some
             (pipeline_step Some (start_pipeline running_controller) StopStream)
             (Fetch (pose_tick img_a 2))) = Ended"
    by auto
  from stop_stream_at_most_one_more [of Some
      "pipeline_step Some (start_pipeline running_controller) (Fetch (pose_tick img_a 2))"
      "[Body, Fetch (pose_tick img_b 4), Body]"] c(2)
  have 2: "length (p_started (pipeline_run Some
        (pipeline_step Some
           (pipeline_step Some (start_pipeline running_controller) (Fetch (pose_tick img_a 2)))
           StopStream)
        [Body, Fetch (pose_tick img_b 4), Body])) \<le> 1"
    by auto
  from 1 3 b 2 show ?thesis by blast
qed

end
